theory Spec2Isabelle
  imports Main "HOL-Library.Word" "HOL-Library.Multiset"
begin

section \<open>The XRF interpreter: shared data\<close>

text \<open>
  \<^verbatim>\<open>src/xrf.c\<close> holds two revisions of the interpreter, one after the other. The
  first (lines 1-346, suffix \<open>_r1\<close> below) keeps a doubly linked stack with a global
  \<^verbatim>\<open>stack_size\<close> counter and re-uses popped nodes; the second (lines 347-710, suffix
  \<open>_r2\<close>) keeps a singly linked stack and frees popped nodes. Both are embedded.

  A stack node holds an \<^verbatim>\<open>unsigned int\<close>: a 32-bit word, so \<open>+\<close> and \<open>-\<close> wrap.
  The linked chain that starts at the top pointer and follows \<^verbatim>\<open>next\<close> is the list of
  the \<^verbatim>\<open>val\<close> fields it meets, top first; the pointer to the bottom node is the last
  element of that list. The counters of the C code (\<^verbatim>\<open>stack_size\<close>, \<^verbatim>\<open>num_vals\<close>,
  \<^verbatim>\<open>code.len\<close>) are not bounded here: the model is meant for stacks and programs of
  fewer than \<open>2 ^ 31\<close> entries, and the theorems about the counters say so.
  \<^verbatim>\<open>malloc\<close> and \<^verbatim>\<open>realloc\<close> are taken to succeed. The stack functions are written
  once more as programs on pointers in the section on the linked lists, which shows
  that they act on the chain as the list models say.
\<close>

type_synonym u32 = "32 word"
type_synonym u8 = "8 word"

text \<open>What the C standard leaves undefined and the code can run into.\<close>

datatype undefined_behaviour =
    NullDereference
  | DivisionByZero
  | OutOfBounds
  | CtypeArgument
  | InvalidPointer

text \<open>
  Every way the process stops: \<^verbatim>\<open>exit(0)\<close> of opcode \<open>B\<close>, one constructor for each
  \<^verbatim>\<open>fprintf(stderr, ...); exit(1)\<close> of the source, and undefined behaviour. The boolean
  of the three two-element checks is the source's \<^verbatim>\<open>stack_size == 1\<close> (or
  \<^verbatim>\<open>stack != NULL\<close>): it selects the wording "one-element" against "empty".
\<close>

datatype stop =
    Halt
  | PopEmpty
  | SwapUnderflow bool
  | DupEmpty
  | SendBottomEmpty
  | OutputEmpty
  | IncrementEmpty
  | DecrementEmpty
  | AddUnderflow bool
  | DifferenceUnderflow bool
  | EmptyAtChunkEnd
  | NonexistentChunk u32
  | UnknownCharacter char
  | InadequateCodeLength
  | Undefined undefined_behaviour

fun exit_status :: "stop \<Rightarrow> nat option" where
  "exit_status Halt = Some 0"
| "exit_status (Undefined _) = None"
| "exit_status _ = Some 1"

section \<open>Revision 1: the stack with a size counter\<close>

text \<open>
  \<open>nodes\<close>: the values from \<^verbatim>\<open>top\<close> along \<^verbatim>\<open>next\<close>; \<open>spare\<close>: the already allocated
  nodes above the top, from \<^verbatim>\<open>top->prev\<close> along \<^verbatim>\<open>prev\<close>; \<open>stack_size\<close>: the global
  counter. \<^verbatim>\<open>top\<close> is \<^verbatim>\<open>NULL\<close> exactly when \<open>nodes\<close> is empty, because the
  \<^verbatim>\<open>next\<close> of the bottom node is \<^verbatim>\<open>NULL\<close>.
\<close>

record stack_r1 =
  nodes :: "u32 list"
  spare :: "u32 list"
  stack_size :: int

definition push_stack_r1 :: "u32 \<Rightarrow> stack_r1 \<Rightarrow> stop + stack_r1" where
  "push_stack_r1 v s =
     (case nodes s of
        [] \<Rightarrow> Inl (Undefined NullDereference)
      | _ # _ \<Rightarrow>
          (case spare s of
             _ # sp \<Rightarrow> Inr (s\<lparr>nodes := v # nodes s, spare := sp, stack_size := stack_size s + 1\<rparr>)
           | [] \<Rightarrow> Inr (s\<lparr>nodes := v # nodes s, stack_size := stack_size s + 1\<rparr>)))"

definition pop_stack_r1 :: "stack_r1 \<Rightarrow> stop + (u32 \<times> stack_r1)" where
  "pop_stack_r1 s =
     (if stack_size s = 0 then Inl PopEmpty
      else (case nodes s of
              [] \<Rightarrow> Inl (Undefined NullDereference)
            | v # rest \<Rightarrow>
                Inr (v, s\<lparr>nodes := rest, spare := v # spare s, stack_size := stack_size s - 1\<rparr>)))"

definition swap_stack_r1 :: "stack_r1 \<Rightarrow> stop + stack_r1" where
  "swap_stack_r1 s =
     (if stack_size s < 2 then Inl (SwapUnderflow (stack_size s = 1))
      else (case nodes s of
              a # b # rest \<Rightarrow> Inr (s\<lparr>nodes := b # a # rest\<rparr>)
            | _ \<Rightarrow> Inl (Undefined NullDereference)))"

definition dup_stack_r1 :: "stack_r1 \<Rightarrow> stop + stack_r1" where
  "dup_stack_r1 s =
     (if stack_size s = 0 then Inl DupEmpty
      else (case nodes s of
              [] \<Rightarrow> Inl (Undefined NullDereference)
            | v # _ \<Rightarrow> push_stack_r1 v s))"

text \<open>
  \<^verbatim>\<open>send_top_to_bottom\<close> unlinks the top node, hands its \<^verbatim>\<open>prev\<close> chain (the spare
  nodes) to the new top and links the node after \<^verbatim>\<open>bottom\<close>.
\<close>

definition send_top_to_bottom_r1 :: "stack_r1 \<Rightarrow> stop + stack_r1" where
  "send_top_to_bottom_r1 s =
     (if stack_size s = 0 then Inl SendBottomEmpty
      else if stack_size s = 1 then Inr s
      else (case nodes s of
              temp # t # rest \<Rightarrow> Inr (s\<lparr>nodes := (t # rest) @ [temp]\<rparr>)
            | _ \<Rightarrow> Inl (Undefined NullDereference)))"

text \<open>
  The shuffling loop of \<^verbatim>\<open>randomize_stack\<close>, the same text in both revisions:
  \<^verbatim>\<open>for (i = n - 1; i > 0; i--) { swap_index = rand() % (i + 1); ... }\<close> with
  \<open>i\<close> an \<^verbatim>\<open>unsigned\<close>. \<open>R\<close> is the sequence of values \<^verbatim>\<open>rand()\<close> returns in this
  process and \<open>k\<close> the number of calls made so far. A remainder by zero and an index
  outside \<open>vals\<close> are undefined behaviour.
\<close>

function shuffle_loop :: "(nat \<Rightarrow> nat) \<Rightarrow> nat \<Rightarrow> u32 \<Rightarrow> u32 list \<Rightarrow> stop + (u32 list \<times> nat)" where
  "shuffle_loop R k i vals =
     (if 0 < i then
        (if i + 1 = 0 then Inl (Undefined DivisionByZero)
         else
           (let swap_index = (of_nat (R k) :: u32) mod (i + 1) in
            if unat swap_index < length vals \<and> unat i < length vals then
              (let temp = vals ! unat swap_index;
                   vals1 = vals[unat swap_index := vals ! unat i];
                   vals2 = vals1[unat i := temp]
               in shuffle_loop R (k + 1) (i - 1) vals2)
            else Inl (Undefined OutOfBounds)))
      else Inr (vals, k))"
  by pat_completeness auto
termination
  by (relation "measure (\<lambda>(R, k, i, vals). unat i)")
     (auto simp: unat_minus_one word_greater_zero_iff unat_gt_0)

declare shuffle_loop.simps [simp del]

text \<open>
  \<^verbatim>\<open>randomize_stack\<close> of revision 1. The buffer has \<^verbatim>\<open>stack_size\<close> cells and the first
  loop fills one cell per node of the chain; when the two numbers differ the loops
  touch cells that were never allocated or never written.
\<close>

definition randomize_stack_r1 ::
  "(nat \<Rightarrow> nat) \<Rightarrow> nat \<Rightarrow> stack_r1 \<Rightarrow> stop + (stack_r1 \<times> nat)" where
  "randomize_stack_r1 R k s =
     (if stack_size s = 0 then Inr (s, k)
      else if int (length (nodes s)) \<noteq> stack_size s then Inl (Undefined OutOfBounds)
      else (case shuffle_loop R k (word_of_int (stack_size s) - 1) (nodes s) of
              Inl e \<Rightarrow> Inl e
            | Inr (vals, k') \<Rightarrow> Inr (s\<lparr>nodes := vals\<rparr>, k')))"

text \<open>
  The agreement the functions of revision 1 rely on: \<^verbatim>\<open>stack_size\<close> is the length of
  the chain.
\<close>

definition counted_r1 :: "stack_r1 \<Rightarrow> bool" where
  "counted_r1 s \<longleftrightarrow> stack_size s = int (length (nodes s))"

section \<open>The machine around the stack\<close>

text \<open>
  \<open>stk\<close> is the stack of the revision; \<open>inp\<close> the bytes of standard input not yet
  read; \<open>outp\<close> the bytes written to standard output; \<open>rand_src\<close> the values
  \<^verbatim>\<open>rand()\<close> returns in this process, fixed by \<^verbatim>\<open>srand(time(NULL))\<close>, and \<open>rand_pos\<close>
  the number of calls made.
\<close>

record 's machine =
  stk :: 's
  inp :: "u8 list"
  outp :: "u8 list"
  rand_src :: "nat \<Rightarrow> nat"
  rand_pos :: nat

text \<open>
  One pass through the \<^verbatim>\<open>switch\<close> of \<^verbatim>\<open>execute_chunk\<close>: go on with the slot index the
  \<^verbatim>\<open>switch\<close> left (the \<^verbatim>\<open>i++\<close> of the \<^verbatim>\<open>for\<close> comes after), \<^verbatim>\<open>return\<close>, or stop
  the process.
\<close>

datatype 'm flow = Continue nat 'm | Return 'm | Stop stop

definition on_stack :: "nat \<Rightarrow> 's machine \<Rightarrow> stop + 's \<Rightarrow> 's machine flow" where
  "on_stack i m r = (case r of Inl e \<Rightarrow> Stop e | Inr s \<Rightarrow> Continue i (m\<lparr>stk := s\<rparr>))"

subsection \<open>Revision 1: the opcodes\<close>

text \<open>\<^verbatim>\<open>case '0'\<close>: \<^verbatim>\<open>getchar\<close>, then \<^verbatim>\<open>push_stack\<close> of the byte, or of 0 at end of input.\<close>

definition read_byte_r1 :: "nat \<Rightarrow> stack_r1 machine \<Rightarrow> stack_r1 machine flow" where
  "read_byte_r1 i m =
     (case inp m of
        [] \<Rightarrow> on_stack i m (push_stack_r1 0 (stk m))
      | b # rest \<Rightarrow> on_stack i (m\<lparr>inp := rest\<rparr>) (push_stack_r1 (ucast b) (stk m)))"

text \<open>\<^verbatim>\<open>case '1'\<close>: \<^verbatim>\<open>putchar(pop_stack())\<close> writes the low byte of the popped value.\<close>

definition write_byte_r1 :: "nat \<Rightarrow> stack_r1 machine \<Rightarrow> stack_r1 machine flow" where
  "write_byte_r1 i m =
     (if stack_size (stk m) = 0 then Stop OutputEmpty
      else (case pop_stack_r1 (stk m) of
              Inl e \<Rightarrow> Stop e
            | Inr (v, s) \<Rightarrow> Continue i (m\<lparr>stk := s, outp := outp m @ [ucast v]\<rparr>)))"

text \<open>\<^verbatim>\<open>case '2'\<close>.\<close>

definition drop_top_r1 :: "nat \<Rightarrow> stack_r1 machine \<Rightarrow> stack_r1 machine flow" where
  "drop_top_r1 i m = on_stack i m (map_sum id snd (pop_stack_r1 (stk m)))"

text \<open>\<^verbatim>\<open>case '5'\<close>: \<^verbatim>\<open>top->val += 1\<close>.\<close>

definition increment_r1 :: "stack_r1 \<Rightarrow> stop + stack_r1" where
  "increment_r1 s =
     (if stack_size s = 0 then Inl IncrementEmpty
      else (case nodes s of
              [] \<Rightarrow> Inl (Undefined NullDereference)
            | v # rest \<Rightarrow> Inr (s\<lparr>nodes := (v + 1) # rest\<rparr>)))"

text \<open>\<^verbatim>\<open>case '6'\<close>: \<^verbatim>\<open>if (top->val > 0) top->val -= 1\<close>.\<close>

definition decrement_r1 :: "stack_r1 \<Rightarrow> stop + stack_r1" where
  "decrement_r1 s =
     (if stack_size s = 0 then Inl DecrementEmpty
      else (case nodes s of
              [] \<Rightarrow> Inl (Undefined NullDereference)
            | v # rest \<Rightarrow> Inr (if 0 < v then s\<lparr>nodes := (v - 1) # rest\<rparr> else s)))"

text \<open>\<^verbatim>\<open>case '7'\<close>: \<^verbatim>\<open>top->next->val += top->val; pop_stack();\<close>\<close>

definition add_r1 :: "stack_r1 \<Rightarrow> stop + stack_r1" where
  "add_r1 s =
     (if stack_size s < 2 then Inl (AddUnderflow (stack_size s \<noteq> 0))
      else (case nodes s of
              a # b # rest \<Rightarrow> map_sum id snd (pop_stack_r1 (s\<lparr>nodes := a # (b + a) # rest\<rparr>))
            | _ \<Rightarrow> Inl (Undefined NullDereference)))"

text \<open>
  \<^verbatim>\<open>case 'E'\<close>: \<^verbatim>\<open>temp_val = pop_stack();\<close> then the larger of \<^verbatim>\<open>temp_val\<close> and
  \<^verbatim>\<open>top->val\<close> minus the smaller is stored in \<^verbatim>\<open>top->val\<close>.
\<close>

definition difference_r1 :: "stack_r1 \<Rightarrow> stop + stack_r1" where
  "difference_r1 s =
     (if stack_size s < 2 then Inl (DifferenceUnderflow (stack_size s \<noteq> 0))
      else (case pop_stack_r1 s of
              Inl e \<Rightarrow> Inl e
            | Inr (temp_val, s1) \<Rightarrow>
                (case nodes s1 of
                   [] \<Rightarrow> Inl (Undefined NullDereference)
                 | v # rest \<Rightarrow>
                     (if temp_val \<le> v then Inr (s1\<lparr>nodes := (v - temp_val) # rest\<rparr>)
                      else Inr (s1\<lparr>nodes := (temp_val - v) # rest\<rparr>)))))"

text \<open>\<^verbatim>\<open>case 'D'\<close>.\<close>

definition shuffle_r1 :: "nat \<Rightarrow> stack_r1 machine \<Rightarrow> stack_r1 machine flow" where
  "shuffle_r1 i m =
     (case randomize_stack_r1 (rand_src m) (rand_pos m) (stk m) of
        Inl e \<Rightarrow> Stop e
      | Inr (s, k) \<Rightarrow> Continue i (m\<lparr>stk := s, rand_pos := k\<rparr>))"

text \<open>
  The \<^verbatim>\<open>switch (chunk[i])\<close> of lines 226-306. It has no \<^verbatim>\<open>default\<close> and no
  \<^verbatim>\<open>case 'F'\<close>: any other character falls through to the end of the \<^verbatim>\<open>switch\<close>.
\<close>

definition switch_r1 :: "char \<Rightarrow> bool \<Rightarrow> nat \<Rightarrow> stack_r1 machine \<Rightarrow> stack_r1 machine flow" where
  "switch_r1 c visited i m =
     (if c = CHR ''0'' then read_byte_r1 i m
      else if c = CHR ''1'' then write_byte_r1 i m
      else if c = CHR ''2'' then drop_top_r1 i m
      else if c = CHR ''3'' then on_stack i m (dup_stack_r1 (stk m))
      else if c = CHR ''4'' then on_stack i m (swap_stack_r1 (stk m))
      else if c = CHR ''5'' then on_stack i m (increment_r1 (stk m))
      else if c = CHR ''6'' then on_stack i m (decrement_r1 (stk m))
      else if c = CHR ''7'' then on_stack i m (add_r1 (stk m))
      else if c = CHR ''8'' then (if \<not> visited then Continue (i + 1) m else Continue i m)
      else if c = CHR ''9'' then on_stack i m (send_top_to_bottom_r1 (stk m))
      else if c = CHR ''A'' then Return m
      else if c = CHR ''B'' then Stop Halt
      else if c = CHR ''C'' then (if visited then Continue (i + 1) m else Continue i m)
      else if c = CHR ''D'' then shuffle_r1 i m
      else if c = CHR ''E'' then on_stack i m (difference_r1 (stk m))
      else Continue i m)"

lemma on_stack_index: "on_stack i m r = Continue i' m' \<Longrightarrow> i' = i"
  by (auto simp: on_stack_def split: sum.splits)

lemma switch_r1_index:
  "switch_r1 c visited i m = Continue i' m' \<Longrightarrow> i' = i \<or> i' = i + 1"
  by (auto simp: switch_r1_def read_byte_r1_def write_byte_r1_def drop_top_r1_def
        shuffle_r1_def
      dest: on_stack_index split: if_splits list.splits sum.splits prod.splits)

text \<open>
  The \<^verbatim>\<open>for (i = 0; i < COMMANDS_PER_CHUNK; i++)\<close> of \<^verbatim>\<open>execute_chunk\<close>, from slot
  \<open>i\<close> on. \<open>chunk\<close> is the pointer into \<^verbatim>\<open>code.commands\<close>: \<open>chunk j\<close> is
  \<^verbatim>\<open>chunk[j]\<close>, and \<open>None\<close> where that cell is outside the commands read.
\<close>

function execute_chunk_from_r1 ::
  "(nat \<Rightarrow> char option) \<Rightarrow> bool \<Rightarrow> nat \<Rightarrow> stack_r1 machine \<Rightarrow> stop + stack_r1 machine" where
  "execute_chunk_from_r1 chunk visited i m =
     (if i < 5 then
        (case chunk i of
           None \<Rightarrow> Inl (Undefined OutOfBounds)
         | Some c \<Rightarrow>
             (case switch_r1 c visited i m of
                Continue i' m' \<Rightarrow> execute_chunk_from_r1 chunk visited (i' + 1) m'
              | Return m' \<Rightarrow> Inr m'
              | Stop e \<Rightarrow> Inl e))
      else Inr m)"
  by pat_completeness auto
termination
  by (relation "measure (\<lambda>(chunk, visited, i, m). 5 - i)")
     (auto dest: switch_r1_index)

declare execute_chunk_from_r1.simps [simp del]

definition execute_chunk_r1 ::
  "(nat \<Rightarrow> char option) \<Rightarrow> bool \<Rightarrow> stack_r1 machine \<Rightarrow> stop + stack_r1 machine" where
  "execute_chunk_r1 chunk visited m = execute_chunk_from_r1 chunk visited 0 m"

section \<open>Revision 2: the singly linked stack\<close>

text \<open>
  The chain from \<^verbatim>\<open>stack\<close> along \<^verbatim>\<open>next\<close>, top first. \<^verbatim>\<open>stack\<close> is \<^verbatim>\<open>NULL\<close> exactly
  when the list is empty; \<^verbatim>\<open>push_stack\<close> and \<^verbatim>\<open>pop_stack\<close> keep \<^verbatim>\<open>bottom\<close> at the last
  node, and at \<^verbatim>\<open>NULL\<close> for the empty stack.
\<close>

type_synonym stack_r2 = "u32 list"

definition push_stack_r2 :: "u32 \<Rightarrow> stack_r2 \<Rightarrow> stack_r2" where
  "push_stack_r2 v s = v # s"

definition pop_stack_r2 :: "stack_r2 \<Rightarrow> stop + (u32 \<times> stack_r2)" where
  "pop_stack_r2 s = (case s of [] \<Rightarrow> Inl PopEmpty | v # rest \<Rightarrow> Inr (v, rest))"

definition swap_stack_r2 :: "stack_r2 \<Rightarrow> stop + stack_r2" where
  "swap_stack_r2 s =
     (case s of
        [] \<Rightarrow> Inl (SwapUnderflow False)
      | [a] \<Rightarrow> Inl (SwapUnderflow True)
      | a # b # rest \<Rightarrow> Inr (b # a # rest))"

definition dup_stack_r2 :: "stack_r2 \<Rightarrow> stop + stack_r2" where
  "dup_stack_r2 s = (case s of [] \<Rightarrow> Inl DupEmpty | v # _ \<Rightarrow> Inr (push_stack_r2 v s))"

definition send_top_to_bottom_r2 :: "stack_r2 \<Rightarrow> stop + stack_r2" where
  "send_top_to_bottom_r2 s =
     (case s of
        [] \<Rightarrow> Inl SendBottomEmpty
      | [a] \<Rightarrow> Inr s
      | node # t # rest \<Rightarrow> Inr ((t # rest) @ [node]))"

text \<open>
  The first loop of \<^verbatim>\<open>randomize_stack\<close> (lines 470-484): \<open>vals\<close> are the cells written
  so far, so \<^verbatim>\<open>num_vals\<close> is \<open>length vals\<close>; the buffer of \<^verbatim>\<open>num_allocated\<close> cells is
  doubled when it is full.
\<close>

fun collect_vals_r2 :: "u32 list \<Rightarrow> u32 list \<Rightarrow> nat \<Rightarrow> stop + (u32 list \<times> nat)" where
  "collect_vals_r2 [] vals num_allocated = Inr (vals, num_allocated)"
| "collect_vals_r2 (v # rest) vals num_allocated =
     (let grown = (if length vals = num_allocated then 2 * num_allocated else num_allocated)
      in if length vals < grown then collect_vals_r2 rest (vals @ [v]) grown
         else Inl (Undefined OutOfBounds))"

text \<open>
  \<^verbatim>\<open>randomize_stack\<close> of revision 2 has no test for the empty stack: the shuffling
  loop starts at \<^verbatim>\<open>num_vals - 1\<close>, computed in \<^verbatim>\<open>unsigned\<close>. The last loop stores
  \<^verbatim>\<open>vals[i]\<close> in the \<open>i\<close>-th node.
\<close>

definition randomize_stack_r2 ::
  "(nat \<Rightarrow> nat) \<Rightarrow> nat \<Rightarrow> stack_r2 \<Rightarrow> stop + (stack_r2 \<times> nat)" where
  "randomize_stack_r2 R k s =
     (case collect_vals_r2 s [] 1 of
        Inl e \<Rightarrow> Inl e
      | Inr (vals, num_allocated) \<Rightarrow>
          (case shuffle_loop R k (of_nat (length vals) - 1) vals of
             Inl e \<Rightarrow> Inl e
           | Inr (vals', k') \<Rightarrow>
               (if length s \<le> length vals' then Inr (take (length s) vals', k')
                else Inl (Undefined OutOfBounds))))"

subsection \<open>Revision 2: the opcodes\<close>

definition read_byte_r2 :: "nat \<Rightarrow> stack_r2 machine \<Rightarrow> stack_r2 machine flow" where
  "read_byte_r2 i m =
     (case inp m of
        [] \<Rightarrow> Continue i (m\<lparr>stk := push_stack_r2 0 (stk m)\<rparr>)
      | b # rest \<Rightarrow> Continue i (m\<lparr>stk := push_stack_r2 (ucast b) (stk m), inp := rest\<rparr>))"

definition write_byte_r2 :: "nat \<Rightarrow> stack_r2 machine \<Rightarrow> stack_r2 machine flow" where
  "write_byte_r2 i m =
     (if stk m = [] then Stop OutputEmpty
      else (case pop_stack_r2 (stk m) of
              Inl e \<Rightarrow> Stop e
            | Inr (v, s) \<Rightarrow> Continue i (m\<lparr>stk := s, outp := outp m @ [ucast v]\<rparr>)))"

definition drop_top_r2 :: "nat \<Rightarrow> stack_r2 machine \<Rightarrow> stack_r2 machine flow" where
  "drop_top_r2 i m = on_stack i m (map_sum id snd (pop_stack_r2 (stk m)))"

definition increment_r2 :: "stack_r2 \<Rightarrow> stop + stack_r2" where
  "increment_r2 s = (case s of [] \<Rightarrow> Inl IncrementEmpty | v # rest \<Rightarrow> Inr ((v + 1) # rest))"

definition decrement_r2 :: "stack_r2 \<Rightarrow> stop + stack_r2" where
  "decrement_r2 s =
     (case s of
        [] \<Rightarrow> Inl DecrementEmpty
      | v # rest \<Rightarrow> Inr (if 0 < v then (v - 1) # rest else s))"

text \<open>
  \<^verbatim>\<open>case '7'\<close> of revision 2 unlinks and frees the top node itself:
  \<^verbatim>\<open>stack->next->val += stack->val; temp = stack; stack = stack->next; free(temp);\<close>
\<close>

definition add_r2 :: "stack_r2 \<Rightarrow> stop + stack_r2" where
  "add_r2 s =
     (case s of
        [] \<Rightarrow> Inl (AddUnderflow False)
      | [a] \<Rightarrow> Inl (AddUnderflow True)
      | a # b # rest \<Rightarrow> Inr ((b + a) # rest))"

definition difference_r2 :: "stack_r2 \<Rightarrow> stop + stack_r2" where
  "difference_r2 s =
     (case s of
        [] \<Rightarrow> Inl (DifferenceUnderflow False)
      | [a] \<Rightarrow> Inl (DifferenceUnderflow True)
      | _ # _ # _ \<Rightarrow>
          (case pop_stack_r2 s of
             Inl e \<Rightarrow> Inl e
           | Inr (temp_val, s1) \<Rightarrow>
               (case s1 of
                  [] \<Rightarrow> Inl (Undefined NullDereference)
                | v # rest \<Rightarrow>
                    (if temp_val \<le> v then Inr ((v - temp_val) # rest)
                     else Inr ((temp_val - v) # rest)))))"

definition shuffle_r2 :: "nat \<Rightarrow> stack_r2 machine \<Rightarrow> stack_r2 machine flow" where
  "shuffle_r2 i m =
     (case randomize_stack_r2 (rand_src m) (rand_pos m) (stk m) of
        Inl e \<Rightarrow> Stop e
      | Inr (s, k) \<Rightarrow> Continue i (m\<lparr>stk := s, rand_pos := k\<rparr>))"

text \<open>The \<^verbatim>\<open>switch (chunk[i])\<close> of lines 572-654, again without \<^verbatim>\<open>case 'F'\<close>.\<close>

definition switch_r2 :: "char \<Rightarrow> bool \<Rightarrow> nat \<Rightarrow> stack_r2 machine \<Rightarrow> stack_r2 machine flow" where
  "switch_r2 c visited i m =
     (if c = CHR ''0'' then read_byte_r2 i m
      else if c = CHR ''1'' then write_byte_r2 i m
      else if c = CHR ''2'' then drop_top_r2 i m
      else if c = CHR ''3'' then on_stack i m (dup_stack_r2 (stk m))
      else if c = CHR ''4'' then on_stack i m (swap_stack_r2 (stk m))
      else if c = CHR ''5'' then on_stack i m (increment_r2 (stk m))
      else if c = CHR ''6'' then on_stack i m (decrement_r2 (stk m))
      else if c = CHR ''7'' then on_stack i m (add_r2 (stk m))
      else if c = CHR ''8'' then (if \<not> visited then Continue (i + 1) m else Continue i m)
      else if c = CHR ''9'' then on_stack i m (send_top_to_bottom_r2 (stk m))
      else if c = CHR ''A'' then Return m
      else if c = CHR ''B'' then Stop Halt
      else if c = CHR ''C'' then (if visited then Continue (i + 1) m else Continue i m)
      else if c = CHR ''D'' then shuffle_r2 i m
      else if c = CHR ''E'' then on_stack i m (difference_r2 (stk m))
      else Continue i m)"

lemma switch_r2_index:
  "switch_r2 c visited i m = Continue i' m' \<Longrightarrow> i' = i \<or> i' = i + 1"
  by (auto simp: switch_r2_def read_byte_r2_def write_byte_r2_def drop_top_r2_def
        shuffle_r2_def
      dest: on_stack_index split: if_splits list.splits sum.splits prod.splits)

function execute_chunk_from_r2 ::
  "(nat \<Rightarrow> char option) \<Rightarrow> bool \<Rightarrow> nat \<Rightarrow> stack_r2 machine \<Rightarrow> stop + stack_r2 machine" where
  "execute_chunk_from_r2 chunk visited i m =
     (if i < 5 then
        (case chunk i of
           None \<Rightarrow> Inl (Undefined OutOfBounds)
         | Some c \<Rightarrow>
             (case switch_r2 c visited i m of
                Continue i' m' \<Rightarrow> execute_chunk_from_r2 chunk visited (i' + 1) m'
              | Return m' \<Rightarrow> Inr m'
              | Stop e \<Rightarrow> Inl e))
      else Inr m)"
  by pat_completeness auto
termination
  by (relation "measure (\<lambda>(chunk, visited, i, m). 5 - i)")
     (auto dest: switch_r2_index)

declare execute_chunk_from_r2.simps [simp del]

definition execute_chunk_r2 ::
  "(nat \<Rightarrow> char option) \<Rightarrow> bool \<Rightarrow> stack_r2 machine \<Rightarrow> stop + stack_r2 machine" where
  "execute_chunk_r2 chunk visited m = execute_chunk_from_r2 chunk visited 0 m"

section \<open>The stored code and its loader\<close>

text \<open>
  \<^verbatim>\<open>struct Code\<close>. \<open>commands\<close> holds the cells of \<^verbatim>\<open>code.commands\<close> written so far, so
  the counter \<^verbatim>\<open>cur_cmd\<close> of \<^verbatim>\<open>read_xrf_file\<close> is \<open>length (commands cd)\<close>; \<open>len\<close> is
  the number of cells allocated; \<open>visited\<close> has one flag per chunk.
\<close>

record xrf_code =
  commands :: "char list"
  visited :: "bool list"
  len :: int

text \<open>\<^verbatim>\<open>isspace\<close> in the "C" locale, the only one the program runs in.\<close>

definition isspace :: "char \<Rightarrow> bool" where
  "isspace c = (of_char c \<in> {9, 10, 11, 12, 13, 32 :: nat})"

definition is_command :: "char \<Rightarrow> bool" where
  "is_command c =
     ((of_char (CHR ''0'') \<le> (of_char c :: nat) \<and> (of_char c :: nat) \<le> of_char (CHR ''9'')) \<or>
      (of_char (CHR ''A'') \<le> (of_char c :: nat) \<and> (of_char c :: nat) \<le> of_char (CHR ''F'')))"

text \<open>
  The body of the reading loop (lines 181-210 and 526-555) for one character: at
  every fifth command both arrays grow by one chunk and the new flag is cleared.
\<close>

definition read_command :: "char \<Rightarrow> xrf_code \<Rightarrow> stop + xrf_code" where
  "read_command c cd =
     (if isspace c then Inr cd
      else if is_command c then
        (let cd1 = (if length (commands cd) mod 5 = 0
                    then cd\<lparr>len := len cd + 5, visited := visited cd @ [False]\<rparr>
                    else cd)
         in if int (length (commands cd1)) < len cd1
            then Inr (cd1\<lparr>commands := commands cd1 @ [c]\<rparr>)
            else Inl (Undefined OutOfBounds))
      else Inl (UnknownCharacter c))"

text \<open>Revision 1 reads with \<^verbatim>\<open>int c\<close>: every byte of the file reaches the loop body.\<close>

fun read_commands_r1 :: "char list \<Rightarrow> xrf_code \<Rightarrow> stop + xrf_code" where
  "read_commands_r1 [] cd = Inr cd"
| "read_commands_r1 (c # cs) cd =
     (case read_command c cd of Inl e \<Rightarrow> Inl e | Inr cd' \<Rightarrow> read_commands_r1 cs cd')"

text \<open>
  Revision 2 reads with \<^verbatim>\<open>char c\<close>, taken as signed (as on x86): the byte 255 compares
  equal to \<^verbatim>\<open>EOF\<close> and ends the loop, and any other byte from 128 on is a negative
  argument of \<^verbatim>\<open>isspace\<close>, which the C standard leaves undefined.
\<close>

fun read_commands_r2 :: "char list \<Rightarrow> xrf_code \<Rightarrow> stop + xrf_code" where
  "read_commands_r2 [] cd = Inr cd"
| "read_commands_r2 (c # cs) cd =
     (if (of_char c :: nat) = 255 then Inr cd
      else if 128 \<le> (of_char c :: nat) then Inl (Undefined CtypeArgument)
      else (case read_command c cd of Inl e \<Rightarrow> Inl e | Inr cd' \<Rightarrow> read_commands_r2 cs cd'))"

definition empty_code :: xrf_code where
  "empty_code = \<lparr>commands = [], visited = [], len = 0\<rparr>"

text \<open>
  \<^verbatim>\<open>read_xrf_file\<close> on the bytes of the file (a file that cannot be opened is not a
  list of bytes). The last test is \<^verbatim>\<open>cur_cmd % COMMANDS_PER_CHUNK != 0\<close>.
\<close>

definition read_xrf_file_r1 :: "char list \<Rightarrow> stop + xrf_code" where
  "read_xrf_file_r1 file =
     (case read_commands_r1 file empty_code of
        Inl e \<Rightarrow> Inl e
      | Inr cd \<Rightarrow> if length (commands cd) mod 5 \<noteq> 0 then Inl InadequateCodeLength else Inr cd)"

definition read_xrf_file_r2 :: "char list \<Rightarrow> stop + xrf_code" where
  "read_xrf_file_r2 file =
     (case read_commands_r2 file empty_code of
        Inl e \<Rightarrow> Inl e
      | Inr cd \<Rightarrow> if length (commands cd) mod 5 \<noteq> 0 then Inl InadequateCodeLength else Inr cd)"

section \<open>The control loop\<close>

text \<open>
  The state at the head of \<^verbatim>\<open>while (true)\<close> in \<^verbatim>\<open>execute_code\<close>. \<open>chunk_at cd cur\<close> is
  the pointer \<^verbatim>\<open>code.commands + (cur_chunk * COMMANDS_PER_CHUNK)\<close>, the product taken
  in \<^verbatim>\<open>unsigned\<close>; \<open>chunk_count\<close> is \<^verbatim>\<open>code.len / COMMANDS_PER_CHUNK\<close>, where
  \<^verbatim>\<open>code.len\<close> is converted to \<^verbatim>\<open>unsigned\<close> first.
\<close>

record 's control =
  code :: xrf_code
  cur_chunk :: u32
  mach :: "'s machine"

definition chunk_at :: "xrf_code \<Rightarrow> u32 \<Rightarrow> nat \<Rightarrow> char option" where
  "chunk_at cd cur j =
     (let k = unat (cur * 5) + j
      in if k < length (commands cd) then Some (commands cd ! k) else None)"

definition chunk_count :: "xrf_code \<Rightarrow> u32" where
  "chunk_count cd = word_of_int (len cd) div 5"

text \<open>
  One pass through the body of the loop, lines 319-333. \<^verbatim>\<open>code.visited\<close> is \<^verbatim>\<open>NULL\<close>
  as long as no chunk was read.
\<close>

definition control_step_r1 :: "stack_r1 control \<Rightarrow> stop + stack_r1 control" where
  "control_step_r1 c =
     (let cd = code c; cur = cur_chunk c in
      if unat cur < length (visited cd) then
        (case execute_chunk_r1 (chunk_at cd cur) (visited cd ! unat cur) (mach c) of
           Inl e \<Rightarrow> Inl e
         | Inr m \<Rightarrow>
             (let cd' = cd\<lparr>visited := (visited cd)[unat cur := True]\<rparr> in
              if stack_size (stk m) = 0 then Inl EmptyAtChunkEnd
              else (case nodes (stk m) of
                      [] \<Rightarrow> Inl (Undefined NullDereference)
                    | t # _ \<Rightarrow>
                        (if chunk_count cd' \<le> t then Inl (NonexistentChunk t)
                         else Inr \<lparr>code = cd', cur_chunk = t, mach = m\<rparr>))))
      else Inl (Undefined (if visited cd = [] then NullDereference else OutOfBounds)))"

text \<open>One pass through the body of the loop, lines 667-681.\<close>

definition control_step_r2 :: "stack_r2 control \<Rightarrow> stop + stack_r2 control" where
  "control_step_r2 c =
     (let cd = code c; cur = cur_chunk c in
      if unat cur < length (visited cd) then
        (case execute_chunk_r2 (chunk_at cd cur) (visited cd ! unat cur) (mach c) of
           Inl e \<Rightarrow> Inl e
         | Inr m \<Rightarrow>
             (let cd' = cd\<lparr>visited := (visited cd)[unat cur := True]\<rparr> in
              (case stk m of
                 [] \<Rightarrow> Inl EmptyAtChunkEnd
               | t # _ \<Rightarrow>
                   (if chunk_count cd' \<le> t then Inl (NonexistentChunk t)
                    else Inr \<lparr>code = cd', cur_chunk = t, mach = m\<rparr>))))
      else Inl (Undefined (if visited cd = [] then NullDereference else OutOfBounds)))"

text \<open>
  The loop has no exit of its own, so it is run for a number of passes: \<open>Inl\<close> when
  the process stopped within them, \<open>Inr\<close> the state at the head of the next pass.
\<close>

fun run_r1 :: "nat \<Rightarrow> stack_r1 control \<Rightarrow> stop + stack_r1 control" where
  "run_r1 0 c = Inr c"
| "run_r1 (Suc n) c = (case control_step_r1 c of Inl e \<Rightarrow> Inl e | Inr c' \<Rightarrow> run_r1 n c')"

fun run_r2 :: "nat \<Rightarrow> stack_r2 control \<Rightarrow> stop + stack_r2 control" where
  "run_r2 0 c = Inr c"
| "run_r2 (Suc n) c = (case control_step_r2 c of Inl e \<Rightarrow> Inl e | Inr c' \<Rightarrow> run_r2 n c')"

text \<open>
  The state \<^verbatim>\<open>execute_code\<close> starts the loop in: chunk 0 and a stack of the one value
  0 (\<^verbatim>\<open>stack_size\<close> is initialised to 1 at its declaration).
\<close>

definition initial_r1 :: "xrf_code \<Rightarrow> u8 list \<Rightarrow> (nat \<Rightarrow> nat) \<Rightarrow> stack_r1 control" where
  "initial_r1 cd input R =
     \<lparr>code = cd, cur_chunk = 0,
      mach = \<lparr>stk = \<lparr>nodes = [0], spare = [], stack_size = 1\<rparr>,
              inp = input, outp = [], rand_src = R, rand_pos = 0\<rparr>\<rparr>"

definition initial_r2 :: "xrf_code \<Rightarrow> u8 list \<Rightarrow> (nat \<Rightarrow> nat) \<Rightarrow> stack_r2 control" where
  "initial_r2 cd input R =
     \<lparr>code = cd, cur_chunk = 0,
      mach = \<lparr>stk = [0], inp = input, outp = [], rand_src = R, rand_pos = 0\<rparr>\<rparr>"

definition execute_code_r1 ::
  "nat \<Rightarrow> xrf_code \<Rightarrow> u8 list \<Rightarrow> (nat \<Rightarrow> nat) \<Rightarrow> stop + stack_r1 control" where
  "execute_code_r1 n cd input R = run_r1 n (initial_r1 cd input R)"

definition execute_code_r2 ::
  "nat \<Rightarrow> xrf_code \<Rightarrow> u8 list \<Rightarrow> (nat \<Rightarrow> nat) \<Rightarrow> stop + stack_r2 control" where
  "execute_code_r2 n cd input R = run_r2 n (initial_r2 cd input R)"

text \<open>\<^verbatim>\<open>main\<close> once the file name is known: load, then execute.\<close>

definition main_r1 ::
  "nat \<Rightarrow> char list \<Rightarrow> u8 list \<Rightarrow> (nat \<Rightarrow> nat) \<Rightarrow> stop + stack_r1 control" where
  "main_r1 n file input R =
     (case read_xrf_file_r1 file of Inl e \<Rightarrow> Inl e | Inr cd \<Rightarrow> execute_code_r1 n cd input R)"

definition main_r2 ::
  "nat \<Rightarrow> char list \<Rightarrow> u8 list \<Rightarrow> (nat \<Rightarrow> nat) \<Rightarrow> stop + stack_r2 control" where
  "main_r2 n file input R =
     (case read_xrf_file_r2 file of Inl e \<Rightarrow> Inl e | Inr cd \<Rightarrow> execute_code_r2 n cd input R)"

section \<open>States for the examples\<close>

text \<open>
  A revision 1 stack with no spare node and a consistent counter, and a machine with
  nothing to read, nothing written and a fixed supply of random numbers.
\<close>

definition stack_of_r1 :: "u32 list \<Rightarrow> stack_r1" where
  "stack_of_r1 xs = \<lparr>nodes = xs, spare = [], stack_size = int (length xs)\<rparr>"

definition machine_of :: "'s \<Rightarrow> 's machine" where
  "machine_of s = \<lparr>stk = s, inp = [], outp = [], rand_src = (\<lambda>k. 7 * k + 3), rand_pos = 0\<rparr>"

section \<open>The arithmetic opcodes\<close>

lemma decrement_r1_eq:
  "counted_r1 s \<Longrightarrow>
   decrement_r1 s =
     (case nodes s of
        [] \<Rightarrow> Inl DecrementEmpty
      | v # rest \<Rightarrow> Inr (s\<lparr>nodes := (if v = 0 then 0 else v - 1) # rest\<rparr>))"
  by (cases s) (auto simp: decrement_r1_def counted_r1_def word_greater_zero_iff split: list.splits)

lemma decrement_r2_eq:
  "decrement_r2 s =
     (case s of
        [] \<Rightarrow> Inl DecrementEmpty
      | v # rest \<Rightarrow> Inr ((if v = 0 then 0 else v - 1) # rest))"
  by (auto simp: decrement_r2_def word_greater_zero_iff split: list.splits)

text \<open>
  Claim C6. On a non-empty stack opcode \<open>6\<close> replaces the top value \<open>v\<close> by \<open>v - 1\<close>,
  except that 0 stays 0: read as a natural number the new top is \<open>unat v - 1\<close> with
  the subtraction that stops at 0, so the 32-bit value never wraps below 0. On an
  empty stack the process stops with the decrement message and status 1. Revision 1
  is read under the agreement of its counter with its chain.
\<close>

theorem decrement_saturates_at_zero:
  fixes m1 :: "stack_r1 machine" and m2 :: "stack_r2 machine" and v :: u32
  assumes "counted_r1 (stk m1)"
  shows "switch_r1 CHR ''6'' vis i m1 =
           (case nodes (stk m1) of
              [] \<Rightarrow> Stop DecrementEmpty
            | v # rest \<Rightarrow>
                Continue i (m1\<lparr>stk := (stk m1)\<lparr>nodes := (if v = 0 then 0 else v - 1) # rest\<rparr>\<rparr>)) \<and>
         switch_r2 CHR ''6'' vis i m2 =
           (case stk m2 of
              [] \<Rightarrow> Stop DecrementEmpty
            | v # rest \<Rightarrow> Continue i (m2\<lparr>stk := (if v = 0 then 0 else v - 1) # rest\<rparr>)) \<and>
         unat (if v = 0 then 0 else v - 1) = unat v - 1 \<and>
         exit_status DecrementEmpty = Some 1"
  using assms
  by (simp add: switch_r1_def switch_r2_def on_stack_def decrement_r1_eq decrement_r2_eq
        unat_minus_one split: list.splits)

theorem decrement_saturates_at_zero_witness:
  "counted_r1 (stk (machine_of (stack_of_r1 [0, 7]))) \<and>
   switch_r1 CHR ''6'' False 2 (machine_of (stack_of_r1 [0, 7])) =
     Continue 2 (machine_of (stack_of_r1 [0, 7])) \<and>
   switch_r2 CHR ''6'' False 2 (machine_of [9, 7]) = Continue 2 (machine_of [8, 7])"
  using decrement_saturates_at_zero [of "machine_of (stack_of_r1 [0, 7])" False 2 "machine_of [9, 7]" 0]
  by (simp add: machine_of_def stack_of_r1_def counted_r1_def)

lemma difference_r1_eq:
  "counted_r1 s \<Longrightarrow>
   difference_r1 s =
     (case nodes s of
        [] \<Rightarrow> Inl (DifferenceUnderflow False)
      | [a] \<Rightarrow> Inl (DifferenceUnderflow True)
      | a # b # rest \<Rightarrow>
          Inr (s\<lparr>nodes := (if a \<le> b then b - a else a - b) # rest,
                 spare := a # spare s, stack_size := stack_size s - 1\<rparr>))"
  by (cases s) (auto simp: difference_r1_def pop_stack_r1_def counted_r1_def split: list.splits)

lemma difference_r2_eq:
  "difference_r2 s =
     (case s of
        [] \<Rightarrow> Inl (DifferenceUnderflow False)
      | [a] \<Rightarrow> Inl (DifferenceUnderflow True)
      | a # b # rest \<Rightarrow> Inr ((if a \<le> b then b - a else a - b) # rest))"
  by (auto simp: difference_r2_def pop_stack_r2_def split: list.splits)

lemma uint_distance: "uint (if a \<le> b then b - a else a - b :: u32) = \<bar>uint b - uint a\<bar>"
  by (auto simp: uint_minus_simple_alt [symmetric] word_le_def)

text \<open>
  Claim C5. On a stack whose top is \<open>a\<close> and whose second value is \<open>b\<close>, opcode \<open>E\<close>
  removes \<open>a\<close> and stores in the new top the distance \<open>|b - a|\<close> of the two unsigned
  values, which is not negative; with fewer than two values the process stops with
  the difference message and status 1.
\<close>

theorem difference_is_absolute:
  fixes m1 :: "stack_r1 machine" and m2 :: "stack_r2 machine" and x y :: u32
  assumes "counted_r1 (stk m1)"
  shows "switch_r1 CHR ''E'' vis i m1 =
           (case nodes (stk m1) of
              [] \<Rightarrow> Stop (DifferenceUnderflow False)
            | [a] \<Rightarrow> Stop (DifferenceUnderflow True)
            | a # b # rest \<Rightarrow>
                Continue i (m1\<lparr>stk := (stk m1)
                  \<lparr>nodes := (if a \<le> b then b - a else a - b) # rest,
                   spare := a # spare (stk m1),
                   stack_size := stack_size (stk m1) - 1\<rparr>\<rparr>)) \<and>
         switch_r2 CHR ''E'' vis i m2 =
           (case stk m2 of
              [] \<Rightarrow> Stop (DifferenceUnderflow False)
            | [a] \<Rightarrow> Stop (DifferenceUnderflow True)
            | a # b # rest \<Rightarrow>
                Continue i (m2\<lparr>stk := (if a \<le> b then b - a else a - b) # rest\<rparr>)) \<and>
         uint (if x \<le> y then y - x else x - y) = \<bar>uint y - uint x\<bar> \<and>
         exit_status (DifferenceUnderflow one) = Some 1"
  using assms
  by (simp add: switch_r1_def switch_r2_def on_stack_def difference_r1_eq difference_r2_eq
        uint_distance split: list.splits)

theorem difference_is_absolute_witness:
  "counted_r1 (stk (machine_of (stack_of_r1 [9, 2, 5]))) \<and>
   switch_r1 CHR ''E'' True 0 (machine_of (stack_of_r1 [9, 2, 5])) =
     Continue 0 (machine_of \<lparr>nodes = [7, 5], spare = [9], stack_size = 2\<rparr>) \<and>
   switch_r2 CHR ''E'' True 0 (machine_of [2, 9, 5]) = Continue 0 (machine_of [7, 5]) \<and>
   uint (if (9 :: u32) \<le> 2 then 2 - 9 else (9 - 2 :: u32)) = \<bar>uint (2 :: u32) - uint (9 :: u32)\<bar>"
  using difference_is_absolute
    [of "machine_of (stack_of_r1 [9, 2, 5])" True 0 "machine_of [2, 9, 5]" 9 2]
  by (simp add: machine_of_def stack_of_r1_def counted_r1_def)

section \<open>The dispatcher\<close>

lemma execute_chunk_from_r1_step:
  "i < 5 \<Longrightarrow> chunk i = Some c \<Longrightarrow> switch_r1 c vis i m = Continue i' m' \<Longrightarrow>
   execute_chunk_from_r1 chunk vis i m = execute_chunk_from_r1 chunk vis (i' + 1) m'"
  by (subst execute_chunk_from_r1.simps) simp

lemma execute_chunk_from_r2_step:
  "i < 5 \<Longrightarrow> chunk i = Some c \<Longrightarrow> switch_r2 c vis i m = Continue i' m' \<Longrightarrow>
   execute_chunk_from_r2 chunk vis i m = execute_chunk_from_r2 chunk vis (i' + 1) m'"
  by (subst execute_chunk_from_r2.simps) simp

text \<open>
  Claim C8. The loader takes \<open>F\<close> as a command, and the \<^verbatim>\<open>switch\<close> has no case for
  it: the slot leaves the whole machine (stack, input, output) as it was and the loop
  goes on at the next slot. The visited flags are out of the dispatcher's reach: it is
  handed one flag by value and returns a machine only.
\<close>

theorem opcode_F_does_nothing:
  "is_command CHR ''F'' \<and> \<not> isspace CHR ''F'' \<and>
   switch_r1 CHR ''F'' vis i m1 = Continue i m1 \<and>
   switch_r2 CHR ''F'' vis i m2 = Continue i m2 \<and>
   (i < 5 \<and> chunk i = Some CHR ''F'' \<longrightarrow>
      execute_chunk_from_r1 chunk vis i m1 = execute_chunk_from_r1 chunk vis (i + 1) m1 \<and>
      execute_chunk_from_r2 chunk vis i m2 = execute_chunk_from_r2 chunk vis (i + 1) m2)"
proof -
  have s1: "switch_r1 CHR ''F'' vis i m1 = Continue i m1"
    by (simp add: switch_r1_def)
  have s2: "switch_r2 CHR ''F'' vis i m2 = Continue i m2"
    by (simp add: switch_r2_def)
  have "is_command CHR ''F''" "\<not> isspace CHR ''F''"
    by (simp_all add: is_command_def isspace_def)
  with s1 s2 show ?thesis
    by (auto simp: execute_chunk_from_r1_step execute_chunk_from_r2_step)
qed

theorem opcode_F_does_nothing_witness:
  "(3 :: nat) < 5 \<and> chunk_at \<lparr>commands = ''555F5'', visited = [False], len = 5\<rparr> 0 3 = Some CHR ''F'' \<and>
   execute_chunk_from_r1 (chunk_at \<lparr>commands = ''555F5'', visited = [False], len = 5\<rparr> 0) False 3
       (machine_of (stack_of_r1 [3])) =
     execute_chunk_from_r1 (chunk_at \<lparr>commands = ''555F5'', visited = [False], len = 5\<rparr> 0) False 4
       (machine_of (stack_of_r1 [3])) \<and>
   read_xrf_file_r1 ''555F5'' = Inr \<lparr>commands = ''555F5'', visited = [False], len = 5\<rparr> \<and>
   read_xrf_file_r2 ''555F5'' = Inr \<lparr>commands = ''555F5'', visited = [False], len = 5\<rparr>"
  using opcode_F_does_nothing
    [of False 3 "machine_of (stack_of_r1 [3])" "machine_of [3]"
        "chunk_at \<lparr>commands = ''555F5'', visited = [False], len = 5\<rparr> 0"]
  by (simp add: chunk_at_def read_xrf_file_r1_def read_xrf_file_r2_def read_command_def
        is_command_def isspace_def empty_code_def)

section \<open>The shuffle\<close>

text \<open>
  The shuffling loop only exchanges cells of \<open>vals\<close>: when it finishes, the buffer has
  its length and its values, each as often as before.
\<close>

lemma shuffle_loop_keeps:
  "shuffle_loop R k i vals = Inr (vals', k') \<Longrightarrow>
   length vals' = length vals \<and> mset vals' = mset vals"
proof (induction R k i vals rule: shuffle_loop.induct)
  case (1 R k i vals)
  show ?case
  proof (cases "0 < i")
    case False
    with "1.prems" show ?thesis
      by (simp add: shuffle_loop.simps [of _ _ i])
  next
    case True
    define sw where "sw = (of_nat (R k) :: u32) mod (i + 1)"
    from "1.prems" True have nz: "i + 1 \<noteq> 0"
      by (auto simp: shuffle_loop.simps [of _ _ i] split: if_splits)
    from "1.prems" True nz have inb: "unat sw < length vals" "unat i < length vals"
      by (auto simp: shuffle_loop.simps [of _ _ i] Let_def sw_def split: if_splits)
    define vals2 where "vals2 = vals[unat sw := vals ! unat i, unat i := vals ! unat sw]"
    from "1.prems" True nz inb have rec: "shuffle_loop R (k + 1) (i - 1) vals2 = Inr (vals', k')"
      by (simp add: shuffle_loop.simps [of _ _ i] Let_def sw_def vals2_def)
    have "length vals' = length vals2 \<and> mset vals' = mset vals2"
      using "1.IH" [OF True nz sw_def _ refl refl refl rec [unfolded vals2_def]] inb
      by (simp add: vals2_def)
    moreover have "mset vals2 = mset vals"
      unfolding vals2_def using inb by (simp add: mset_swap)
    ultimately show ?thesis by (simp add: vals2_def)
  qed
qed

text \<open>
  Started inside a buffer of fewer than \<open>2 ^ 32\<close> cells, the loop finishes: \<open>i + 1\<close>
  is not 0 and both indices stay inside the buffer.
\<close>

lemma shuffle_loop_succeeds:
  "unat i < length vals \<Longrightarrow> length vals < 2 ^ 32 \<Longrightarrow>
   \<exists>vals' k'. shuffle_loop R k i vals = Inr (vals', k')"
proof (induction R k i vals rule: shuffle_loop.induct)
  case (1 R k i vals)
  show ?case
  proof (cases "0 < i")
    case False
    then show ?thesis
      by (simp add: shuffle_loop.simps [of _ _ i])
  next
    case True
    define sw where "sw = (of_nat (R k) :: u32) mod (i + 1)"
    from "1.prems" have "unat i + 1 < 2 ^ 32" by simp
    then have un: "unat (i + 1) = unat i + 1"
      by (simp add: unat_word_ariths)
    then have nz: "i + 1 \<noteq> 0"
      by (metis Suc_eq_plus1 nat.distinct(1) unat_0)
    have "sw < i + 1"
      unfolding sw_def using nz by (simp add: word_mod_less_divisor word_greater_zero_iff)
    then have "unat sw < unat i + 1"
      using un by (simp add: word_less_nat_alt)
    with "1.prems" have inb: "unat sw < length vals" "unat i < length vals"
      by simp_all
    define vals2 where "vals2 = vals[unat sw := vals ! unat i, unat i := vals ! unat sw]"
    have "unat (i - 1) < length vals2" "length vals2 < 2 ^ 32"
      using True "1.prems" by (simp_all add: vals2_def unat_minus_one word_greater_zero_iff)
    from "1.IH" [OF True nz sw_def _ refl refl refl this [unfolded vals2_def]] inb
    obtain vals' k' where "shuffle_loop R (k + 1) (i - 1) vals2 = Inr (vals', k')"
      by (auto simp: vals2_def)
    with True nz inb show ?thesis
      by (simp add: shuffle_loop.simps [of _ _ i] Let_def sw_def vals2_def)
  qed
qed

section \<open>The slots of a chunk\<close>

text \<open>
  The loop reads \<^verbatim>\<open>chunk[i]\<close> only while \<open>i < 5\<close>: two chunk pointers that agree on the
  five slots give the same execution, whatever lies behind them.
\<close>

lemma execute_chunk_from_r1_cong:
  "\<forall>j<5. chunk j = chunk' j \<Longrightarrow>
   execute_chunk_from_r1 chunk vis i m = execute_chunk_from_r1 chunk' vis i m"
proof (induction chunk vis i m rule: execute_chunk_from_r1.induct)
  case (1 chunk visited i m)
  show ?case
  proof (cases "i < 5")
    case False
    then show ?thesis
      by (simp add: execute_chunk_from_r1.simps [of _ _ i])
  next
    case True
    with "1.prems" have same: "chunk' i = chunk i" by simp
    show ?thesis
    proof (cases "chunk i")
      case None
      with True same show ?thesis
        by (simp add: execute_chunk_from_r1.simps [of _ _ i])
    next
      case (Some c)
      show ?thesis
      proof (cases "switch_r1 c visited i m")
        case (Continue i' m')
        from "1.IH" [OF True Some Continue "1.prems"] True Some same Continue
        show ?thesis
          by (simp add: execute_chunk_from_r1.simps [of _ _ i])
      qed (use True Some same in \<open>simp_all add: execute_chunk_from_r1.simps [of _ _ i]\<close>)
    qed
  qed
qed

lemma execute_chunk_from_r2_cong:
  "\<forall>j<5. chunk j = chunk' j \<Longrightarrow>
   execute_chunk_from_r2 chunk vis i m = execute_chunk_from_r2 chunk' vis i m"
proof (induction chunk vis i m rule: execute_chunk_from_r2.induct)
  case (1 chunk visited i m)
  show ?case
  proof (cases "i < 5")
    case False
    then show ?thesis
      by (simp add: execute_chunk_from_r2.simps [of _ _ i])
  next
    case True
    with "1.prems" have same: "chunk' i = chunk i" by simp
    show ?thesis
    proof (cases "chunk i")
      case None
      with True same show ?thesis
        by (simp add: execute_chunk_from_r2.simps [of _ _ i])
    next
      case (Some c)
      show ?thesis
      proof (cases "switch_r2 c visited i m")
        case (Continue i' m')
        from "1.IH" [OF True Some Continue "1.prems"] True Some same Continue
        show ?thesis
          by (simp add: execute_chunk_from_r2.simps [of _ _ i])
      qed (use True Some same in \<open>simp_all add: execute_chunk_from_r2.simps [of _ _ i]\<close>)
    qed
  qed
qed

lemma execute_chunk_from_r1_done:
  "5 \<le> i \<Longrightarrow> execute_chunk_from_r1 chunk vis i m = Inr m"
  by (simp add: execute_chunk_from_r1.simps [of _ _ i])

lemma execute_chunk_from_r2_done:
  "5 \<le> i \<Longrightarrow> execute_chunk_from_r2 chunk vis i m = Inr m"
  by (simp add: execute_chunk_from_r2.simps [of _ _ i])

lemma skip_r1:
  "switch_r1 CHR ''8'' vis i m = Continue (if vis then i else i + 1) m"
  "switch_r1 CHR ''C'' vis i m = Continue (if vis then i + 1 else i) m"
  by (simp_all add: switch_r1_def)

lemma skip_r2:
  "switch_r2 CHR ''8'' vis i m = Continue (if vis then i else i + 1) m"
  "switch_r2 CHR ''C'' vis i m = Continue (if vis then i + 1 else i) m"
  by (simp_all add: switch_r2_def)

lemma last_slot_skip_r1:
  "chunk 4 = Some CHR ''8'' \<Longrightarrow> execute_chunk_from_r1 chunk False 4 m = Inr m"
  "chunk 4 = Some CHR ''C'' \<Longrightarrow> execute_chunk_from_r1 chunk True 4 m = Inr m"
  by (simp_all add: execute_chunk_from_r1_step [where i' = 5 and m' = m] skip_r1
        execute_chunk_from_r1_done)

lemma last_slot_skip_r2:
  "chunk 4 = Some CHR ''8'' \<Longrightarrow> execute_chunk_from_r2 chunk False 4 m = Inr m"
  "chunk 4 = Some CHR ''C'' \<Longrightarrow> execute_chunk_from_r2 chunk True 4 m = Inr m"
  by (simp_all add: execute_chunk_from_r2_step [where i' = 5 and m' = m] skip_r2
        execute_chunk_from_r2_done)

text \<open>
  Claim C9. A skip in the last slot (opcode \<open>8\<close> with the flag false, opcode \<open>C\<close> with
  the flag true) ends the chunk with the machine as it is: the loop is left as soon as
  the slot index is 5 or more, without a further read. No slot beyond index 4 is ever
  dispatched: the execution of a chunk depends on the five cells \<open>chunk 0\<close> to
  \<open>chunk 4\<close> only.
\<close>

theorem dispatch_stays_in_chunk:
  "(chunk 4 = Some CHR ''8'' \<longrightarrow>
      execute_chunk_from_r1 chunk False 4 m1 = Inr m1 \<and>
      execute_chunk_from_r2 chunk False 4 m2 = Inr m2) \<and>
   (chunk 4 = Some CHR ''C'' \<longrightarrow>
      execute_chunk_from_r1 chunk True 4 m1 = Inr m1 \<and>
      execute_chunk_from_r2 chunk True 4 m2 = Inr m2) \<and>
   (5 \<le> i \<longrightarrow>
      execute_chunk_from_r1 chunk vis i m1 = Inr m1 \<and>
      execute_chunk_from_r2 chunk vis i m2 = Inr m2) \<and>
   ((\<forall>j<5. chunk j = chunk' j) \<longrightarrow>
      execute_chunk_r1 chunk vis m1 = execute_chunk_r1 chunk' vis m1 \<and>
      execute_chunk_r2 chunk vis m2 = execute_chunk_r2 chunk' vis m2)"
proof -
  have "execute_chunk_r1 chunk vis m1 = execute_chunk_r1 chunk' vis m1"
    "execute_chunk_r2 chunk vis m2 = execute_chunk_r2 chunk' vis m2"
    if "\<forall>j<5. chunk j = chunk' j"
    unfolding execute_chunk_r1_def execute_chunk_r2_def
    by (rule execute_chunk_from_r1_cong [OF that], rule execute_chunk_from_r2_cong [OF that])
  then show ?thesis
    by (simp add: last_slot_skip_r1 last_slot_skip_r2 execute_chunk_from_r1_done
          execute_chunk_from_r2_done)
qed

text \<open>
  The witness runs the first chunk of \<open>5555C 5B555\<close> with the flag true, and again with
  every cell behind the chunk made unreadable: the skip in slot 4 ends the chunk, and
  the \<open>5\<close> that follows it in memory is not executed.
\<close>

theorem dispatch_stays_in_chunk_witness:
  "chunk_at \<lparr>commands = ''5555C5B555'', visited = [True, False], len = 10\<rparr> 0 4 = Some CHR ''C'' \<and>
   execute_chunk_from_r1 (chunk_at \<lparr>commands = ''5555C5B555'', visited = [True, False], len = 10\<rparr> 0)
       True 4 (machine_of (stack_of_r1 [4])) = Inr (machine_of (stack_of_r1 [4])) \<and>
   (5 :: nat) \<le> 6 \<and>
   execute_chunk_r2
       (\<lambda>j. if j < 5
            then chunk_at \<lparr>commands = ''5555C5B555'', visited = [True, False], len = 10\<rparr> 0 j
            else None)
       True (machine_of [0]) =
     execute_chunk_r2 (chunk_at \<lparr>commands = ''5555C5B555'', visited = [True, False], len = 10\<rparr> 0)
       True (machine_of [0]) \<and>
   execute_chunk_r2 (chunk_at \<lparr>commands = ''5555C5B555'', visited = [True, False], len = 10\<rparr> 0)
       True (machine_of [0]) = Inr (machine_of [4])"
proof -
  let ?chunk = "chunk_at \<lparr>commands = ''5555C5B555'', visited = [True, False], len = 10\<rparr> 0"
  have run: "execute_chunk_r2 ?chunk True (machine_of [0]) = Inr (machine_of [4])"
    by (simp add: execute_chunk_r2_def execute_chunk_from_r2.simps chunk_at_def switch_r2_def
          on_stack_def increment_r2_def machine_of_def)
  have slot: "?chunk 4 = Some CHR ''C''"
    by (simp add: chunk_at_def)
  show ?thesis
    using dispatch_stays_in_chunk
      [of ?chunk "machine_of (stack_of_r1 [4])" "machine_of [0]" 6 True
          "\<lambda>j. if j < 5 then ?chunk j else None"]
      run slot
    by simp
qed

section \<open>The counter of revision 1\<close>

text \<open>
  \<open>counted_r1\<close> is true of the initial stack and kept by every opcode, so it is
  true whenever the control loop looks at the stack.
\<close>

lemma push_stack_r1_counted:
  "counted_r1 s \<Longrightarrow> push_stack_r1 v s = Inr s' \<Longrightarrow> counted_r1 s'"
  by (auto simp: counted_r1_def push_stack_r1_def split: list.splits)

lemma pop_stack_r1_counted:
  "counted_r1 s \<Longrightarrow> pop_stack_r1 s = Inr (v, s') \<Longrightarrow> counted_r1 s'"
  by (auto simp: counted_r1_def pop_stack_r1_def split: list.splits if_splits)

lemma drop_top_r1_counted:
  "counted_r1 s \<Longrightarrow> map_sum id snd (pop_stack_r1 s) = Inr s' \<Longrightarrow> counted_r1 s'"
  by (cases "pop_stack_r1 s") (auto dest: pop_stack_r1_counted)

lemma randomize_stack_r1_counted:
  "counted_r1 s \<Longrightarrow> randomize_stack_r1 R k s = Inr (s', k') \<Longrightarrow> counted_r1 s'"
  by (auto simp: counted_r1_def randomize_stack_r1_def
      dest: shuffle_loop_keeps split: if_splits sum.splits)

lemma stack_ops_r1_counted:
  assumes "counted_r1 s"
  shows "swap_stack_r1 s = Inr s' \<Longrightarrow> counted_r1 s'"
    and "dup_stack_r1 s = Inr s' \<Longrightarrow> counted_r1 s'"
    and "send_top_to_bottom_r1 s = Inr s' \<Longrightarrow> counted_r1 s'"
    and "increment_r1 s = Inr s' \<Longrightarrow> counted_r1 s'"
    and "decrement_r1 s = Inr s' \<Longrightarrow> counted_r1 s'"
    and "add_r1 s = Inr s' \<Longrightarrow> counted_r1 s'"
    and "difference_r1 s = Inr s' \<Longrightarrow> counted_r1 s'"
  using assms
  by (auto simp: counted_r1_def swap_stack_r1_def dup_stack_r1_def send_top_to_bottom_r1_def
        increment_r1_def decrement_r1_def add_r1_def difference_r1_def push_stack_r1_def
        pop_stack_r1_def
      split: list.splits if_splits)

lemma switch_r1_counted:
  assumes "counted_r1 (stk m)"
  shows "switch_r1 c vis i m = Continue i' m' \<Longrightarrow> counted_r1 (stk m')"
    and "switch_r1 c vis i m = Return m' \<Longrightarrow> m' = m"
  using assms
  by (auto simp: switch_r1_def on_stack_def read_byte_r1_def write_byte_r1_def drop_top_r1_def
        shuffle_r1_def
      dest: stack_ops_r1_counted push_stack_r1_counted pop_stack_r1_counted
        drop_top_r1_counted randomize_stack_r1_counted
      split: if_splits sum.splits list.splits prod.splits)

lemma execute_chunk_from_r1_counted:
  "counted_r1 (stk m) \<Longrightarrow> execute_chunk_from_r1 chunk vis i m = Inr m' \<Longrightarrow> counted_r1 (stk m')"
proof (induction chunk vis i m rule: execute_chunk_from_r1.induct)
  case (1 chunk visited i m)
  show ?case
  proof (cases "i < 5")
    case False
    with "1.prems" show ?thesis
      by (simp add: execute_chunk_from_r1.simps [of _ _ i])
  next
    case True
    with "1.prems" obtain c where c: "chunk i = Some c"
      by (auto simp: execute_chunk_from_r1.simps [of _ _ i] split: option.splits)
    show ?thesis
    proof (cases "switch_r1 c visited i m")
      case (Continue i' m1)
      with True c "1.prems" have "execute_chunk_from_r1 chunk visited (i' + 1) m1 = Inr m'"
        by (simp add: execute_chunk_from_r1.simps [of _ _ i])
      with "1.IH" [OF True c Continue] switch_r1_counted(1) [OF "1.prems"(1) Continue]
      show ?thesis by simp
    next
      case (Return m1)
      with True c "1.prems" switch_r1_counted(2) [OF "1.prems"(1) Return] show ?thesis
        by (simp add: execute_chunk_from_r1.simps [of _ _ i])
    next
      case (Stop e)
      with True c "1.prems" show ?thesis
        by (simp add: execute_chunk_from_r1.simps [of _ _ i])
    qed
  qed
qed

section \<open>The loader\<close>

text \<open>
  What the arrays hold after the commands \<open>cs\<close> were stored: one cleared flag for
  every chunk begun, and five cells allocated for each of them.
\<close>

definition code_of :: "char list \<Rightarrow> xrf_code" where
  "code_of cs =
     \<lparr>commands = cs,
      visited = replicate ((length cs + 4) div 5) False,
      len = 5 * int ((length cs + 4) div 5)\<rparr>"

lemma empty_code_of: "empty_code = code_of []"
  by (simp add: empty_code_def code_of_def)

lemma chunks_begun:
  "n mod 5 = 0 \<Longrightarrow> (5 + n) div 5 = Suc ((n + 4) div 5)"
  "n mod 5 \<noteq> 0 \<Longrightarrow> (5 + n) div 5 = (n + 4) div 5"
  "n mod 5 \<noteq> 0 \<Longrightarrow> int n < 5 * int ((n + 4) div 5)"
  "n mod 5 = 0 \<Longrightarrow> 5 * ((n + 4) div 5) = (n :: nat)"
  "n mod 5 = 0 \<Longrightarrow> int n < 5 * int ((n + 4) div 5) + 5"
  by presburger+

lemma read_command_code_of:
  "read_command c (code_of cs) =
     (if isspace c then Inr (code_of cs)
      else if is_command c then Inr (code_of (cs @ [c]))
      else Inl (UnknownCharacter c))"
proof (cases "length cs mod 5 = 0")
  case True
  then show ?thesis
    by (simp add: read_command_def code_of_def Let_def chunks_begun replicate_append_same)
next
  case False
  then show ?thesis
    by (simp add: read_command_def code_of_def Let_def chunks_begun)
qed

lemma read_commands_r1_code_of:
  "read_commands_r1 bytes (code_of cs) =
     (case filter (\<lambda>c. \<not> isspace c \<and> \<not> is_command c) bytes of
        [] \<Rightarrow> Inr (code_of (cs @ filter (\<lambda>c. \<not> isspace c) bytes))
      | c # _ \<Rightarrow> Inl (UnknownCharacter c))"
proof (induction bytes arbitrary: cs)
  case Nil
  show ?case by simp
next
  case (Cons c bytes)
  show ?case
  proof (cases "isspace c")
    case True
    then show ?thesis
      by (simp add: read_command_code_of Cons.IH split: list.splits)
  next
    case False
    then show ?thesis
      by (cases "is_command c") (simp_all add: read_command_code_of Cons.IH split: list.splits)
  qed
qed

text \<open>
  Revision 1 loads a file exactly when it holds white space and commands only and the
  number of its commands is a multiple of 5, zero included.
\<close>

lemma read_xrf_file_r1_eq:
  "read_xrf_file_r1 bytes =
     (case filter (\<lambda>c. \<not> isspace c \<and> \<not> is_command c) bytes of
        [] \<Rightarrow>
          (if length (filter (\<lambda>c. \<not> isspace c) bytes) mod 5 \<noteq> 0 then Inl InadequateCodeLength
           else Inr (code_of (filter (\<lambda>c. \<not> isspace c) bytes)))
      | c # _ \<Rightarrow> Inl (UnknownCharacter c))"
  by (simp add: read_xrf_file_r1_def empty_code_of read_commands_r1_code_of
      split: list.splits) (simp add: code_of_def)

text \<open>On a file of 7-bit characters revision 2 reads as revision 1 does.\<close>

lemma read_commands_r2_ascii:
  "\<forall>c \<in> set bytes. (of_char c :: nat) < 128 \<Longrightarrow>
   read_commands_r2 bytes cd = read_commands_r1 bytes cd"
  by (induction bytes arbitrary: cd) (auto split: sum.splits)

lemma read_xrf_file_r2_ascii:
  "\<forall>c \<in> set bytes. (of_char c :: nat) < 128 \<Longrightarrow> read_xrf_file_r2 bytes = read_xrf_file_r1 bytes"
  by (simp add: read_xrf_file_r2_def read_xrf_file_r1_def read_commands_r2_ascii)

lemma read_commands_r2_code_of:
  "read_commands_r2 bytes (code_of cs) = Inr cd \<Longrightarrow> \<exists>cs'. cd = code_of cs'"
proof (induction bytes arbitrary: cs)
  case Nil
  then show ?case by auto
next
  case (Cons c bytes)
  then show ?case
    by (auto simp: read_command_code_of split: if_splits)
qed

lemma read_xrf_file_code_of:
  "read_xrf_file_r1 bytes = Inr cd \<Longrightarrow> \<exists>cs. cd = code_of cs \<and> length cs mod 5 = 0"
  "read_xrf_file_r2 bytes = Inr cd \<Longrightarrow> \<exists>cs. cd = code_of cs \<and> length cs mod 5 = 0"
proof -
  show "\<exists>cs. cd = code_of cs \<and> length cs mod 5 = 0" if "read_xrf_file_r1 bytes = Inr cd"
    using that
    by (auto simp: read_xrf_file_r1_eq split: list.splits if_splits)
  show "\<exists>cs. cd = code_of cs \<and> length cs mod 5 = 0" if "read_xrf_file_r2 bytes = Inr cd"
  proof -
    from that have rd: "read_commands_r2 bytes (code_of []) = Inr cd"
      and m: "length (commands cd) mod 5 = 0"
      by (auto simp: read_xrf_file_r2_def empty_code_of split: sum.splits if_splits)
    from read_commands_r2_code_of [OF rd] obtain cs where "cd = code_of cs" ..
    with m show ?thesis by (auto simp: code_of_def)
  qed
qed

section \<open>The control loop: jumps\<close>

lemma control_step_r1_eq:
  assumes "unat (cur_chunk c) < length (visited (code c))"
    and "execute_chunk_r1 (chunk_at (code c) (cur_chunk c))
           (visited (code c) ! unat (cur_chunk c)) (mach c) = Inr m"
    and "counted_r1 (stk m)"
  shows "control_step_r1 c =
           (case nodes (stk m) of
              [] \<Rightarrow> Inl EmptyAtChunkEnd
            | t # rest \<Rightarrow>
                (if chunk_count (code c) \<le> t then Inl (NonexistentChunk t)
                 else Inr \<lparr>code = (code c)\<lparr>visited := (visited (code c))[unat (cur_chunk c) := True]\<rparr>,
                          cur_chunk = t, mach = m\<rparr>))"
  using assms
  by (auto simp: control_step_r1_def Let_def chunk_count_def counted_r1_def split: list.splits)

lemma control_step_r2_eq:
  assumes "unat (cur_chunk c) < length (visited (code c))"
    and "execute_chunk_r2 (chunk_at (code c) (cur_chunk c))
           (visited (code c) ! unat (cur_chunk c)) (mach c) = Inr m"
  shows "control_step_r2 c =
           (case stk m of
              [] \<Rightarrow> Inl EmptyAtChunkEnd
            | t # rest \<Rightarrow>
                (if chunk_count (code c) \<le> t then Inl (NonexistentChunk t)
                 else Inr \<lparr>code = (code c)\<lparr>visited := (visited (code c))[unat (cur_chunk c) := True]\<rparr>,
                          cur_chunk = t, mach = m\<rparr>))"
  using assms
  by (auto simp: control_step_r2_def Let_def chunk_count_def split: list.splits)

text \<open>
  Claim C3. In a state of the loop whose chunk exists (and, in revision 1, whose
  counter agrees with the chain), let the chunk finish with the machine \<open>m\<close> and a
  stack whose top is \<open>t\<close>. When \<open>t\<close> is at least the number of chunks, the process stops
  with the message that names \<open>t\<close>, and with status 1; when \<open>t\<close> is less, the loop goes
  on at chunk \<open>t\<close> with that machine and the flag of the chunk just run set. Every
  state the loop reaches from a loaded program of at least one chunk is such a state
  (\<open>reached_r1\<close> and \<open>reached_r2\<close>, in the last section).
\<close>

theorem jump_target_is_checked:
  "(counted_r1 (stk (mach c1)) \<and>
    unat (cur_chunk c1) < length (visited (code c1)) \<and>
    execute_chunk_r1 (chunk_at (code c1) (cur_chunk c1))
      (visited (code c1) ! unat (cur_chunk c1)) (mach c1) = Inr m1 \<and>
    nodes (stk m1) = t1 # rest1 \<longrightarrow>
      control_step_r1 c1 =
        (if chunk_count (code c1) \<le> t1 then Inl (NonexistentChunk t1)
         else Inr \<lparr>code = (code c1)\<lparr>visited := (visited (code c1))[unat (cur_chunk c1) := True]\<rparr>,
                  cur_chunk = t1, mach = m1\<rparr>)) \<and>
   (unat (cur_chunk c2) < length (visited (code c2)) \<and>
    execute_chunk_r2 (chunk_at (code c2) (cur_chunk c2))
      (visited (code c2) ! unat (cur_chunk c2)) (mach c2) = Inr m2 \<and>
    stk m2 = t2 # rest2 \<longrightarrow>
      control_step_r2 c2 =
        (if chunk_count (code c2) \<le> t2 then Inl (NonexistentChunk t2)
         else Inr \<lparr>code = (code c2)\<lparr>visited := (visited (code c2))[unat (cur_chunk c2) := True]\<rparr>,
                  cur_chunk = t2, mach = m2\<rparr>)) \<and>
   exit_status (NonexistentChunk t) = Some 1"
proof -
  have "control_step_r1 c1 =
        (if chunk_count (code c1) \<le> t1 then Inl (NonexistentChunk t1)
         else Inr \<lparr>code = (code c1)\<lparr>visited := (visited (code c1))[unat (cur_chunk c1) := True]\<rparr>,
                  cur_chunk = t1, mach = m1\<rparr>)"
    if cnt: "counted_r1 (stk (mach c1))"
      and cur: "unat (cur_chunk c1) < length (visited (code c1))"
      and run: "execute_chunk_r1 (chunk_at (code c1) (cur_chunk c1))
          (visited (code c1) ! unat (cur_chunk c1)) (mach c1) = Inr m1"
      and top: "nodes (stk m1) = t1 # rest1"
  proof -
    from cnt run have "counted_r1 (stk m1)"
      unfolding execute_chunk_r1_def by (rule execute_chunk_from_r1_counted)
    from control_step_r1_eq [OF cur run this] top show ?thesis by simp
  qed
  moreover have "control_step_r2 c2 =
        (if chunk_count (code c2) \<le> t2 then Inl (NonexistentChunk t2)
         else Inr \<lparr>code = (code c2)\<lparr>visited := (visited (code c2))[unat (cur_chunk c2) := True]\<rparr>,
                  cur_chunk = t2, mach = m2\<rparr>)"
    if cur: "unat (cur_chunk c2) < length (visited (code c2))"
      and run: "execute_chunk_r2 (chunk_at (code c2) (cur_chunk c2))
          (visited (code c2) ! unat (cur_chunk c2)) (mach c2) = Inr m2"
      and top: "stk m2 = t2 # rest2"
    using control_step_r2_eq [OF cur run] top by simp
  ultimately show ?thesis by simp
qed

text \<open>
  The witness is the third scenario of the specification, \<open>5555A\<close>: the chunk returns
  with the stack \<open>[4]\<close>, there is one chunk, and the process stops naming chunk 4. In
  \<open>AAAAA\<close> the chunk returns with the stack \<open>[0]\<close> and the loop goes on at chunk 0.
\<close>

theorem jump_target_is_checked_witness:
  "counted_r1 (stk (mach (initial_r1 (code_of ''5555A'') [] (\<lambda>k. k)))) \<and>
   unat (cur_chunk (initial_r1 (code_of ''5555A'') [] (\<lambda>k. k))) <
     length (visited (code (initial_r1 (code_of ''5555A'') [] (\<lambda>k. k)))) \<and>
   execute_chunk_r1 (chunk_at (code_of ''5555A'') 0) False
       (mach (initial_r1 (code_of ''5555A'') [] (\<lambda>k. k))) =
     Inr \<lparr>stk = stack_of_r1 [4], inp = [], outp = [], rand_src = (\<lambda>k. k), rand_pos = 0\<rparr> \<and>
   chunk_count (code_of ''5555A'') = 1 \<and>
   control_step_r1 (initial_r1 (code_of ''5555A'') [] (\<lambda>k. k)) = Inl (NonexistentChunk 4) \<and>
   execute_chunk_r2 (chunk_at (code_of ''AAAAA'') 0) False
       (mach (initial_r2 (code_of ''AAAAA'') [] (\<lambda>k. k))) =
     Inr (mach (initial_r2 (code_of ''AAAAA'') [] (\<lambda>k. k))) \<and>
   control_step_r2 (initial_r2 (code_of ''AAAAA'') [] (\<lambda>k. k)) =
     Inr \<lparr>code = (code_of ''AAAAA'')\<lparr>visited := [True]\<rparr>, cur_chunk = 0,
          mach = mach (initial_r2 (code_of ''AAAAA'') [] (\<lambda>k. k))\<rparr>"
proof -
  let ?c1 = "initial_r1 (code_of ''5555A'') [] (\<lambda>k. k)"
  let ?c2 = "initial_r2 (code_of ''AAAAA'') [] (\<lambda>k. k)"
  let ?m1 = "\<lparr>stk = stack_of_r1 [4], inp = [], outp = [], rand_src = (\<lambda>k. k), rand_pos = 0\<rparr>"
  have e1: "execute_chunk_r1 (chunk_at (code_of ''5555A'') 0) False (mach ?c1) = Inr ?m1"
    by (simp add: execute_chunk_r1_def execute_chunk_from_r1.simps chunk_at_def code_of_def
          switch_r1_def on_stack_def increment_r1_def initial_r1_def stack_of_r1_def)
  have e2: "execute_chunk_r2 (chunk_at (code_of ''AAAAA'') 0) False (mach ?c2) = Inr (mach ?c2)"
    by (simp add: execute_chunk_r2_def execute_chunk_from_r2.simps chunk_at_def code_of_def
          switch_r2_def)
  have n: "chunk_count (code_of ''5555A'') = 1" "chunk_count (code_of ''AAAAA'') = 1"
    by (simp_all add: chunk_count_def code_of_def)
  show ?thesis
    using jump_target_is_checked [of ?c1 ?m1 4 "[]" ?c2 "mach ?c2" 0 "[]" 0] e1 e2 n
    by (simp add: initial_r1_def initial_r2_def code_of_def counted_r1_def stack_of_r1_def)
qed

section \<open>The control loop: visited flags\<close>

lemma control_step_r1_code:
  "control_step_r1 c = Inr c' \<Longrightarrow>
   unat (cur_chunk c) < length (visited (code c)) \<and>
   code c' = (code c)\<lparr>visited := (visited (code c))[unat (cur_chunk c) := True]\<rparr>"
  by (auto simp: control_step_r1_def Let_def split: if_splits sum.splits list.splits)

lemma control_step_r2_code:
  "control_step_r2 c = Inr c' \<Longrightarrow>
   unat (cur_chunk c) < length (visited (code c)) \<and>
   code c' = (code c)\<lparr>visited := (visited (code c))[unat (cur_chunk c) := True]\<rparr>"
  by (auto simp: control_step_r2_def Let_def split: if_splits sum.splits list.splits)

text \<open>
  The loop writes \<^verbatim>\<open>true\<close> and nothing else into \<^verbatim>\<open>code.visited\<close>, and it writes
  neither the commands nor the length.
\<close>

lemma run_r1_code:
  "run_r1 n c = Inr c' \<Longrightarrow>
   commands (code c') = commands (code c) \<and> len (code c') = len (code c) \<and>
   length (visited (code c')) = length (visited (code c)) \<and>
   (\<forall>k. k < length (visited (code c)) \<longrightarrow> visited (code c) ! k \<longrightarrow> visited (code c') ! k)"
proof (induction n arbitrary: c)
  case 0
  then show ?case by simp
next
  case (Suc n)
  then obtain c1 where step: "control_step_r1 c = Inr c1" and rest: "run_r1 n c1 = Inr c'"
    by (auto split: sum.splits)
  from control_step_r1_code [OF step] Suc.IH [OF rest] show ?case
    by (auto simp: nth_list_update)
qed

lemma run_r2_code:
  "run_r2 n c = Inr c' \<Longrightarrow>
   commands (code c') = commands (code c) \<and> len (code c') = len (code c) \<and>
   length (visited (code c')) = length (visited (code c)) \<and>
   (\<forall>k. k < length (visited (code c)) \<longrightarrow> visited (code c) ! k \<longrightarrow> visited (code c') ! k)"
proof (induction n arbitrary: c)
  case 0
  then show ?case by simp
next
  case (Suc n)
  then obtain c1 where step: "control_step_r2 c = Inr c1" and rest: "run_r2 n c1 = Inr c'"
    by (auto split: sum.splits)
  from control_step_r2_code [OF step] Suc.IH [OF rest] show ?case
    by (auto simp: nth_list_update)
qed

text \<open>
  Claim C10. Every flag of a loaded program is false. A pass of the loop that goes on
  changes the flags in one place only: it sets the flag of the chunk it ran. So a flag
  that is true in some state of the loop is true in every state reached from it, after
  any number of passes.
\<close>

theorem visited_flags_are_monotone:
  "(read_xrf_file_r1 bytes = Inr cd \<longrightarrow> (\<forall>b \<in> set (visited cd). b = False)) \<and>
   (read_xrf_file_r2 bytes = Inr cd \<longrightarrow> (\<forall>b \<in> set (visited cd). b = False)) \<and>
   (control_step_r1 c1 = Inr d1 \<longrightarrow>
      visited (code d1) = (visited (code c1))[unat (cur_chunk c1) := True]) \<and>
   (control_step_r2 c2 = Inr d2 \<longrightarrow>
      visited (code d2) = (visited (code c2))[unat (cur_chunk c2) := True]) \<and>
   (run_r1 n c1 = Inr e1 \<and> k < length (visited (code c1)) \<and> visited (code c1) ! k \<longrightarrow>
      k < length (visited (code e1)) \<and> visited (code e1) ! k) \<and>
   (run_r2 n c2 = Inr e2 \<and> k < length (visited (code c2)) \<and> visited (code c2) ! k \<longrightarrow>
      k < length (visited (code e2)) \<and> visited (code e2) ! k)"
proof -
  have "\<forall>b \<in> set (visited cd). b = False" if "read_xrf_file_r1 bytes = Inr cd"
    using read_xrf_file_code_of(1) [OF that] by (auto simp: code_of_def)
  moreover have "\<forall>b \<in> set (visited cd). b = False" if "read_xrf_file_r2 bytes = Inr cd"
    using read_xrf_file_code_of(2) [OF that] by (auto simp: code_of_def)
  moreover have "visited (code d1) = (visited (code c1))[unat (cur_chunk c1) := True]"
    if "control_step_r1 c1 = Inr d1"
    using control_step_r1_code [OF that] by simp
  moreover have "visited (code d2) = (visited (code c2))[unat (cur_chunk c2) := True]"
    if "control_step_r2 c2 = Inr d2"
    using control_step_r2_code [OF that] by simp
  moreover have "k < length (visited (code e1)) \<and> visited (code e1) ! k"
    if "run_r1 n c1 = Inr e1" "k < length (visited (code c1))" "visited (code c1) ! k"
    using run_r1_code [OF that(1)] that(2,3) by simp
  moreover have "k < length (visited (code e2)) \<and> visited (code e2) ! k"
    if "run_r2 n c2 = Inr e2" "k < length (visited (code c2))" "visited (code c2) ! k"
    using run_r2_code [OF that(1)] that(2,3) by simp
  ultimately show ?thesis by blast
qed

text \<open>
  The witness loads \<open>856A5 AAAAA\<close> and looks at the loop once chunk 0 has run: the
  chunk runs again and again (its \<open>8\<close> no longer skips, and it leaves the stack
  \<open>[0]\<close>), and its flag stays set.
\<close>

theorem visited_flags_are_monotone_witness:
  "read_xrf_file_r1 ''856A5 AAAAA'' = Inr (code_of ''856A5AAAAA'') \<and>
   read_xrf_file_r2 ''856A5 AAAAA'' = Inr (code_of ''856A5AAAAA'') \<and>
   visited (code_of ''856A5AAAAA'') = [False, False] \<and>
   control_step_r1
       ((initial_r1 (code_of ''856A5AAAAA'') [] (\<lambda>k. k))
          \<lparr>code := (code_of ''856A5AAAAA'')\<lparr>visited := [True, False]\<rparr>\<rparr>) =
     Inr ((initial_r1 (code_of ''856A5AAAAA'') [] (\<lambda>k. k))
          \<lparr>code := (code_of ''856A5AAAAA'')\<lparr>visited := [True, False]\<rparr>\<rparr>) \<and>
   run_r1 (Suc (Suc 0))
       ((initial_r1 (code_of ''856A5AAAAA'') [] (\<lambda>k. k))
          \<lparr>code := (code_of ''856A5AAAAA'')\<lparr>visited := [True, False]\<rparr>\<rparr>) =
     Inr ((initial_r1 (code_of ''856A5AAAAA'') [] (\<lambda>k. k))
          \<lparr>code := (code_of ''856A5AAAAA'')\<lparr>visited := [True, False]\<rparr>\<rparr>) \<and>
   control_step_r2
       ((initial_r2 (code_of ''856A5AAAAA'') [] (\<lambda>k. k))
          \<lparr>code := (code_of ''856A5AAAAA'')\<lparr>visited := [True, False]\<rparr>\<rparr>) =
     Inr ((initial_r2 (code_of ''856A5AAAAA'') [] (\<lambda>k. k))
          \<lparr>code := (code_of ''856A5AAAAA'')\<lparr>visited := [True, False]\<rparr>\<rparr>) \<and>
   run_r2 (Suc (Suc 0))
       ((initial_r2 (code_of ''856A5AAAAA'') [] (\<lambda>k. k))
          \<lparr>code := (code_of ''856A5AAAAA'')\<lparr>visited := [True, False]\<rparr>\<rparr>) =
     Inr ((initial_r2 (code_of ''856A5AAAAA'') [] (\<lambda>k. k))
          \<lparr>code := (code_of ''856A5AAAAA'')\<lparr>visited := [True, False]\<rparr>\<rparr>) \<and>
   (0 :: nat) < length [True, False] \<and> [True, False] ! 0"
proof -
  let ?cd = "code_of ''856A5AAAAA''"
  let ?c1 = "(initial_r1 ?cd [] (\<lambda>k. k))\<lparr>code := ?cd\<lparr>visited := [True, False]\<rparr>\<rparr>"
  let ?c2 = "(initial_r2 ?cd [] (\<lambda>k. k))\<lparr>code := ?cd\<lparr>visited := [True, False]\<rparr>\<rparr>"
  have l1: "read_xrf_file_r1 ''856A5 AAAAA'' = Inr ?cd"
    by (simp add: read_xrf_file_r1_eq isspace_def is_command_def)
  have l2: "read_xrf_file_r2 ''856A5 AAAAA'' = Inr ?cd"
    by (simp add: read_xrf_file_r2_ascii read_xrf_file_r1_eq isspace_def is_command_def)
  have s1: "control_step_r1 ?c1 = Inr ?c1"
    by (simp add: control_step_r1_def execute_chunk_r1_def execute_chunk_from_r1.simps
          chunk_at_def code_of_def switch_r1_def on_stack_def increment_r1_def decrement_r1_def
          initial_r1_def chunk_count_def)
  have s2: "control_step_r2 ?c2 = Inr ?c2"
    by (simp add: control_step_r2_def execute_chunk_r2_def execute_chunk_from_r2.simps
          chunk_at_def code_of_def switch_r2_def on_stack_def increment_r2_def decrement_r2_def
          initial_r2_def chunk_count_def)
  have r1: "run_r1 (Suc (Suc 0)) ?c1 = Inr ?c1"
    by (simp add: s1)
  have r2: "run_r2 (Suc (Suc 0)) ?c2 = Inr ?c2"
    by (simp add: s2)
  have v: "visited ?cd = [False, False]"
    by (simp add: code_of_def numeral_2_eq_2)
  show ?thesis
    using visited_flags_are_monotone
      [of "''856A5 AAAAA''" ?cd ?c1 ?c1 ?c2 ?c2 "Suc (Suc 0)" ?c1 0 ?c2]
      l1 l2 s1 s2 r1 r2 v
    by simp
qed

section \<open>The conditional skips\<close>

lemma skip_slot_r1:
  assumes "i < 5"
  shows "chunk i = Some CHR ''8'' \<Longrightarrow>
           execute_chunk_from_r1 chunk vis i m =
           execute_chunk_from_r1 chunk vis (if vis then i + 1 else i + 2) m"
    and "chunk i = Some CHR ''C'' \<Longrightarrow>
           execute_chunk_from_r1 chunk vis i m =
           execute_chunk_from_r1 chunk vis (if vis then i + 2 else i + 1) m"
  using assms
  by (simp_all add: execute_chunk_from_r1_step [OF _ _ skip_r1(1)]
        execute_chunk_from_r1_step [OF _ _ skip_r1(2)])

lemma skip_slot_r2:
  assumes "i < 5"
  shows "chunk i = Some CHR ''8'' \<Longrightarrow>
           execute_chunk_from_r2 chunk vis i m =
           execute_chunk_from_r2 chunk vis (if vis then i + 1 else i + 2) m"
    and "chunk i = Some CHR ''C'' \<Longrightarrow>
           execute_chunk_from_r2 chunk vis i m =
           execute_chunk_from_r2 chunk vis (if vis then i + 2 else i + 1) m"
  using assms
  by (simp_all add: execute_chunk_from_r2_step [OF _ _ skip_r2(1)]
        execute_chunk_from_r2_step [OF _ _ skip_r2(2)])

section \<open>The rotation\<close>

text \<open>An operation on the stack applied \<open>n\<close> times, stopping at the first failure.\<close>

fun n_times :: "nat \<Rightarrow> ('s \<Rightarrow> stop + 's) \<Rightarrow> 's \<Rightarrow> stop + 's" where
  "n_times 0 f s = Inr s"
| "n_times (Suc n) f s = (case f s of Inl e \<Rightarrow> Inl e | Inr s' \<Rightarrow> n_times n f s')"

lemma send_top_to_bottom_r1_eq:
  "counted_r1 s \<Longrightarrow>
   send_top_to_bottom_r1 s =
     (case nodes s of [] \<Rightarrow> Inl SendBottomEmpty | x # xs \<Rightarrow> Inr (s\<lparr>nodes := rotate1 (x # xs)\<rparr>))"
  by (cases s) (auto simp: send_top_to_bottom_r1_def counted_r1_def split: list.splits)

lemma send_top_to_bottom_r2_eq:
  "send_top_to_bottom_r2 s =
     (case s of [] \<Rightarrow> Inl SendBottomEmpty | x # xs \<Rightarrow> Inr (rotate1 (x # xs)))"
  by (auto simp: send_top_to_bottom_r2_def split: list.splits)

lemma n_times_send_r1:
  "counted_r1 s \<Longrightarrow> nodes s \<noteq> [] \<Longrightarrow>
   n_times k send_top_to_bottom_r1 s = Inr (s\<lparr>nodes := rotate k (nodes s)\<rparr>)"
proof (induction k arbitrary: s)
  case 0
  then show ?case by simp
next
  case (Suc k)
  let ?s1 = "s\<lparr>nodes := rotate1 (nodes s)\<rparr>"
  from Suc.prems have step: "send_top_to_bottom_r1 s = Inr ?s1"
    by (cases "nodes s") (simp_all add: send_top_to_bottom_r1_eq)
  from Suc.prems have "counted_r1 ?s1" "nodes ?s1 \<noteq> []"
    by (simp_all add: counted_r1_def)
  from Suc.IH [OF this] step show ?case
    by (simp add: rotate1_rotate_swap)
qed

lemma n_times_send_r2:
  "s \<noteq> [] \<Longrightarrow> n_times k send_top_to_bottom_r2 s = Inr (rotate k s)"
proof (induction k arbitrary: s)
  case 0
  then show ?case by simp
next
  case (Suc k)
  from Suc.prems have step: "send_top_to_bottom_r2 s = Inr (rotate1 s)"
    by (cases s) (simp_all add: send_top_to_bottom_r2_eq)
  from Suc.prems have "rotate1 s \<noteq> []" by simp
  from Suc.IH [OF this] step show ?case
    by (simp add: rotate1_rotate_swap)
qed

section \<open>The shuffle of the whole stack\<close>

lemma collect_vals_r2_all:
  "length vals \<le> num_allocated \<Longrightarrow> 0 < num_allocated \<Longrightarrow>
   \<exists>n. collect_vals_r2 ns vals num_allocated = Inr (vals @ ns, n)"
proof (induction ns arbitrary: vals num_allocated)
  case Nil
  then show ?case by simp
next
  case (Cons v ns)
  let ?grown = "if length vals = num_allocated then 2 * num_allocated else num_allocated"
  from Cons.prems have room: "length vals < ?grown" by auto
  then have "length (vals @ [v]) \<le> ?grown" "0 < ?grown" by auto
  from Cons.IH [OF this] obtain n where
    "collect_vals_r2 ns (vals @ [v]) ?grown = Inr ((vals @ [v]) @ ns, n)" ..
  with room show ?case by (simp add: Let_def)
qed

text \<open>
  Revision 1 shuffles every stack it can hold: the result has the values of the
  stack, each as often as before, in as many nodes, and the empty stack is returned
  as it is without a call of \<^verbatim>\<open>rand\<close>.
\<close>

lemma randomize_stack_r1_permutes:
  assumes "counted_r1 s" and "length (nodes s) < 2 ^ 31"
  shows "\<exists>vals k'. randomize_stack_r1 R k s = Inr (s\<lparr>nodes := vals\<rparr>, k') \<and>
           mset vals = mset (nodes s) \<and> length vals = length (nodes s) \<and>
           (nodes s = [] \<longrightarrow> vals = [] \<and> k' = k)"
proof (cases "nodes s = []")
  case True
  with assms show ?thesis
    by (simp add: randomize_stack_r1_def counted_r1_def)
next
  case False
  let ?n = "length (nodes s)"
  from assms have size: "stack_size s = int ?n" by (simp add: counted_r1_def)
  from False have pos: "0 < ?n" by simp
  from assms(2) have small: "?n < 2 ^ 32" by simp
  have "unat (of_nat ?n :: u32) = ?n"
    using small by (simp add: of_nat_inverse [OF refl])
  moreover from this pos have "(of_nat ?n :: u32) \<noteq> 0" by auto
  ultimately have "unat ((of_nat ?n :: u32) - 1) = ?n - 1"
    by (simp add: unat_minus_one)
  with pos have start: "unat (word_of_int (stack_size s) - 1 :: u32) < ?n"
    by (simp add: size)
  from shuffle_loop_succeeds [OF start small] obtain vals k' where
    loop: "shuffle_loop R k (word_of_int (stack_size s) - 1) (nodes s) = Inr (vals, k')"
    by blast
  from shuffle_loop_keeps [OF loop] loop False size pos show ?thesis
    by (intro exI [of _ vals] exI [of _ k']) (simp add: randomize_stack_r1_def)
qed

text \<open>Revision 2 does the same on every stack that is not empty.\<close>

lemma randomize_stack_r2_permutes:
  assumes "s \<noteq> []" and "length s < 2 ^ 32"
  shows "\<exists>s' k'. randomize_stack_r2 R k s = Inr (s', k') \<and>
           mset s' = mset s \<and> length s' = length s"
proof -
  from collect_vals_r2_all [of "[]" 1 s] obtain n where
    coll: "collect_vals_r2 s [] 1 = Inr (s, n)" by auto
  from assms have pos: "0 < length s" by simp
  have "unat (of_nat (length s) :: u32) = length s"
    using assms(2) by (simp add: of_nat_inverse [OF refl])
  moreover from this pos have "(of_nat (length s) :: u32) \<noteq> 0" by auto
  ultimately have "unat ((of_nat (length s) :: u32) - 1) = length s - 1"
    by (simp add: unat_minus_one)
  with pos have start: "unat (of_nat (length s) - 1 :: u32) < length s" by simp
  from shuffle_loop_succeeds [OF start assms(2)] obtain vals k' where
    loop: "shuffle_loop R k (of_nat (length s) - 1) s = Inr (vals, k')"
    by blast
  from shuffle_loop_keeps [OF loop] loop coll show ?thesis
    by (intro exI [of _ vals] exI [of _ k']) (simp add: randomize_stack_r2_def)
qed

text \<open>
  On the empty stack revision 2 starts the shuffling loop at \<open>0 - 1\<close>, the largest
  \<^verbatim>\<open>unsigned\<close>, and its first step is \<^verbatim>\<open>rand() % 0\<close>.
\<close>

lemma randomize_stack_r2_empty:
  "randomize_stack_r2 R k [] = Inl (Undefined DivisionByZero)"
  by (simp add: randomize_stack_r2_def shuffle_loop.simps [of _ _ "- 1"] word_greater_zero_iff)

text \<open>
  Claim C4. The claim holds in revision 1 (\<open>randomize_stack_r1_permutes\<close>) and, for
  every stack that is not empty, in revision 2 (\<open>randomize_stack_r2_permutes\<close>). On
  the empty stack revision 1 returns at once, and revision 2, which has no such test,
  divides by zero: the program \<open>2DAAA\<close> empties the stack and shuffles it.
\<close>

theorem shuffle_of_the_empty_stack:
  "randomize_stack_r1 R k (stack_of_r1 []) = Inr (stack_of_r1 [], k) \<and>
   randomize_stack_r2 R k [] = Inl (Undefined DivisionByZero) \<and>
   read_xrf_file_r2 ''2DAAA'' = Inr (code_of ''2DAAA'') \<and>
   main_r1 (Suc n) ''2DAAA'' input R = Inl EmptyAtChunkEnd \<and>
   main_r2 (Suc n) ''2DAAA'' input R = Inl (Undefined DivisionByZero) \<and>
   exit_status (Undefined DivisionByZero) = None"
proof -
  have l1: "read_xrf_file_r1 ''2DAAA'' = Inr (code_of ''2DAAA'')"
    by (simp add: read_xrf_file_r1_eq isspace_def is_command_def)
  have l2: "read_xrf_file_r2 ''2DAAA'' = Inr (code_of ''2DAAA'')"
    by (simp add: read_xrf_file_r2_ascii read_xrf_file_r1_eq isspace_def is_command_def)
  have e1: "randomize_stack_r1 R k (stack_of_r1 []) = Inr (stack_of_r1 [], k)" for k
    by (simp add: randomize_stack_r1_def stack_of_r1_def)
  have s1: "control_step_r1 (initial_r1 (code_of ''2DAAA'') input R) = Inl EmptyAtChunkEnd"
    by (simp add: control_step_r1_def execute_chunk_r1_def execute_chunk_from_r1.simps
          chunk_at_def code_of_def switch_r1_def on_stack_def drop_top_r1_def pop_stack_r1_def
          shuffle_r1_def randomize_stack_r1_def initial_r1_def)
  have s2: "control_step_r2 (initial_r2 (code_of ''2DAAA'') input R) =
      Inl (Undefined DivisionByZero)"
    by (simp add: control_step_r2_def execute_chunk_r2_def execute_chunk_from_r2.simps
          chunk_at_def code_of_def switch_r2_def on_stack_def drop_top_r2_def pop_stack_r2_def
          shuffle_r2_def randomize_stack_r2_empty initial_r2_def)
  show ?thesis
    by (simp add: main_r1_def main_r2_def execute_code_r1_def execute_code_r2_def l1 l2 s1 s2
          e1 randomize_stack_r2_empty)
qed

section \<open>The file without commands\<close>

text \<open>
  Claim C2. The test at the end of \<^verbatim>\<open>read_xrf_file\<close> is \<^verbatim>\<open>cur_cmd % 5 != 0\<close>, and 0 passes
  it: a file that is empty, or holds white space only, is loaded as a program of no
  chunk with \<^verbatim>\<open>code.commands\<close> and \<^verbatim>\<open>code.visited\<close> still \<^verbatim>\<open>NULL\<close>. No error is
  reported and no exit status 1 is produced at load time; \<^verbatim>\<open>execute_code\<close> then
  reads \<^verbatim>\<open>code.visited[0]\<close> through the null pointer. (For every other file the
  loader does what the claim says, see \<open>read_xrf_file_r1_eq\<close>.)
\<close>

theorem file_without_commands_is_loaded:
  "read_xrf_file_r1 [] = Inr empty_code \<and>
   read_xrf_file_r2 [] = Inr empty_code \<and>
   read_xrf_file_r1 [CHR '' '', CHR 0x0A] = Inr empty_code \<and>
   read_xrf_file_r2 [CHR '' '', CHR 0x0A] = Inr empty_code \<and>
   chunk_count empty_code = 0 \<and>
   main_r1 (Suc n) [] input R = Inl (Undefined NullDereference) \<and>
   main_r2 (Suc n) [] input R = Inl (Undefined NullDereference) \<and>
   exit_status (Undefined NullDereference) = None"
proof -
  have l: "read_xrf_file_r1 [] = Inr empty_code" "read_xrf_file_r2 [] = Inr empty_code"
    "read_xrf_file_r1 [CHR '' '', CHR 0x0A] = Inr empty_code"
    "read_xrf_file_r2 [CHR '' '', CHR 0x0A] = Inr empty_code"
    by (simp_all add: read_xrf_file_r1_def read_xrf_file_r2_def read_command_def isspace_def
          empty_code_def)
  have s: "control_step_r1 (initial_r1 empty_code input R) = Inl (Undefined NullDereference)"
    "control_step_r2 (initial_r2 empty_code input R) = Inl (Undefined NullDereference)"
    by (simp_all add: control_step_r1_def control_step_r2_def initial_r1_def initial_r2_def
          empty_code_def)
  have "chunk_count empty_code = 0"
    by (simp add: chunk_count_def empty_code_def)
  with l s show ?thesis
    by (simp add: main_r1_def main_r2_def execute_code_r1_def execute_code_r2_def)
qed

section \<open>The linked lists behind the stacks\<close>

text \<open>
  The lists of the two stack models are read off a memory of nodes. This section
  writes the stack functions as the pointer programs they are and shows that they
  do to the chain of nodes what the list models say. Memory is split by field:
  \<open>h_val a\<close>, \<open>h_next a\<close> and \<open>h_prev a\<close> are the fields of the node at address
  \<open>a\<close>. \<^verbatim>\<open>malloc\<close> hands out addresses never used before (\<open>brk\<close> counts them) and is
  taken to succeed; \<^verbatim>\<open>free\<close> withdraws an address; an access through \<^verbatim>\<open>NULL\<close> or
  through an address that is not allocated is undefined behaviour.
\<close>

type_synonym addr = nat

record memory =
  h_val :: "addr \<Rightarrow> u32"
  h_next :: "addr \<Rightarrow> addr option"
  h_prev :: "addr \<Rightarrow> addr option"
  allocated :: "addr \<Rightarrow> bool"
  brk :: addr

definition malloc :: "'a memory_scheme \<Rightarrow> addr \<times> 'a memory_scheme" where
  "malloc s = (brk s, s\<lparr>allocated := (allocated s)(brk s := True), brk := Suc (brk s)\<rparr>)"

definition free :: "addr \<Rightarrow> 'a memory_scheme \<Rightarrow> 'a memory_scheme" where
  "free a s = s\<lparr>allocated := (allocated s)(a := False)\<rparr>"

text \<open>The address behind a pointer that is about to be dereferenced.\<close>

definition deref :: "'a memory_scheme \<Rightarrow> addr option \<Rightarrow> stop + addr" where
  "deref s p =
     (case p of
        None \<Rightarrow> Inl (Undefined NullDereference)
      | Some a \<Rightarrow> if allocated s a then Inr a else Inl (Undefined InvalidPointer))"

definition and_then :: "stop + 'a \<Rightarrow> ('a \<Rightarrow> stop + 'b) \<Rightarrow> stop + 'b" where
  "and_then r f = (case r of Inl e \<Rightarrow> Inl e | Inr x \<Rightarrow> f x)"

text \<open>\<open>chain nx p as\<close>: from the pointer \<open>p\<close> the field \<open>nx\<close> leads through \<open>as\<close> to \<^verbatim>\<open>NULL\<close>.\<close>

primrec chain :: "(addr \<Rightarrow> addr option) \<Rightarrow> addr option \<Rightarrow> addr list \<Rightarrow> bool" where
  "chain nx p [] \<longleftrightarrow> p = None"
| "chain nx p (a # as) \<longleftrightarrow> p = Some a \<and> chain nx (nx a) as"

subsection \<open>Revision 2\<close>

text \<open>The globals \<^verbatim>\<open>stack\<close> and \<^verbatim>\<open>bottom\<close> of lines 356-359, with the memory.\<close>

record pointers_r2 = memory +
  stack :: "addr option"
  bottom :: "addr option"

definition new_stack_node_p2 :: "u32 \<Rightarrow> pointers_r2 \<Rightarrow> addr \<times> pointers_r2" where
  "new_stack_node_p2 v s =
     (let (node, s1) = malloc s
      in (node, s1\<lparr>h_next := (h_next s1)(node := None), h_val := (h_val s1)(node := v)\<rparr>))"

definition push_stack_p2 :: "u32 \<Rightarrow> pointers_r2 \<Rightarrow> pointers_r2" where
  "push_stack_p2 v s =
     (let (node, s1) = new_stack_node_p2 v s;
          s2 = s1\<lparr>h_next := (h_next s1)(node := stack s1)\<rparr>;
          s3 = s2\<lparr>stack := Some node\<rparr>
      in if bottom s3 = None then s3\<lparr>bottom := stack s3\<rparr> else s3)"

definition pop_stack_p2 :: "pointers_r2 \<Rightarrow> stop + (u32 \<times> pointers_r2)" where
  "pop_stack_p2 s =
     (if stack s = None then Inl PopEmpty
      else and_then (deref s (stack s)) (\<lambda>node.
        let v = h_val s node;
            s1 = s\<lparr>stack := h_next s node\<rparr>;
            s2 = free node s1
        in Inr (v, if stack s2 = None then s2\<lparr>bottom := stack s2\<rparr> else s2)))"

definition swap_stack_p2 :: "pointers_r2 \<Rightarrow> stop + pointers_r2" where
  "swap_stack_p2 s =
     (if stack s = None then Inl (SwapUnderflow False)
      else and_then (deref s (stack s)) (\<lambda>a.
        if h_next s a = None then Inl (SwapUnderflow True)
        else and_then (deref s (h_next s a)) (\<lambda>b.
          let temp = h_val s a;
              s1 = s\<lparr>h_val := (h_val s)(a := h_val s b)\<rparr>
          in Inr (s1\<lparr>h_val := (h_val s1)(b := temp)\<rparr>))))"

definition dup_stack_p2 :: "pointers_r2 \<Rightarrow> stop + pointers_r2" where
  "dup_stack_p2 s =
     (if stack s = None then Inl DupEmpty
      else and_then (deref s (stack s)) (\<lambda>a. Inr (push_stack_p2 (h_val s a) s)))"

text \<open>
  Lines 444-458:
  \<^verbatim>\<open>node = stack; stack = stack->next; bottom->next = node; bottom = bottom->next; bottom->next = NULL;\<close>
\<close>

definition send_top_to_bottom_p2 :: "pointers_r2 \<Rightarrow> stop + pointers_r2" where
  "send_top_to_bottom_p2 s =
     (if stack s = None then Inl SendBottomEmpty
      else and_then (deref s (stack s)) (\<lambda>node.
        if h_next s node = None then Inr s
        else
          (let s1 = s\<lparr>stack := h_next s node\<rparr>
           in and_then (deref s1 (bottom s1)) (\<lambda>b.
             let s2 = s1\<lparr>h_next := (h_next s1)(b := Some node)\<rparr>;
                 s3 = s2\<lparr>bottom := h_next s2 b\<rparr>
             in and_then (deref s3 (bottom s3)) (\<lambda>b'.
               Inr (s3\<lparr>h_next := (h_next s3)(b' := None)\<rparr>))))))"

text \<open>
  \<^verbatim>\<open>case '7'\<close>, lines 614-624:
  \<^verbatim>\<open>stack->next->val += stack->val; temp = stack; stack = stack->next; free(temp);\<close>
\<close>

definition add_p2 :: "pointers_r2 \<Rightarrow> stop + pointers_r2" where
  "add_p2 s =
     (if stack s = None then Inl (AddUnderflow False)
      else and_then (deref s (stack s)) (\<lambda>a.
        if h_next s a = None then Inl (AddUnderflow True)
        else and_then (deref s (h_next s a)) (\<lambda>b.
          let s1 = s\<lparr>h_val := (h_val s)(b := h_val s b + h_val s a)\<rparr>;
              s2 = s1\<lparr>stack := h_next s1 a\<rparr>
          in Inr (free a s2))))"

text \<open>
  \<open>linked_r2 s as\<close>: the nodes of the stack are those at the addresses \<open>as\<close>, top
  first, all different and allocated, and \<^verbatim>\<open>bottom\<close> points to the last of them.
\<close>

definition linked_r2 :: "pointers_r2 \<Rightarrow> addr list \<Rightarrow> bool" where
  "linked_r2 s as \<longleftrightarrow>
     chain (h_next s) (stack s) as \<and> distinct as \<and>
     list_all (\<lambda>a. allocated s a \<and> a < brk s) as \<and>
     bottom s = (if as = [] then None else Some (last as))"

lemma chain_update: "a \<notin> set as \<Longrightarrow> chain (nx(a := y)) p as = chain nx p as"
  by (induction as arbitrary: p) auto

lemma chain_Nil_iff: "chain nx None as \<longleftrightarrow> as = []"
  by (cases as) auto

lemma chain_snoc:
  "chain nx p as \<Longrightarrow> as \<noteq> [] \<Longrightarrow> last as = b \<Longrightarrow> distinct as \<Longrightarrow> c \<notin> set as \<Longrightarrow>
   chain (nx(b := Some c, c := None)) p (as @ [c])"
proof (induction as arbitrary: p)
  case Nil
  then show ?case by simp
next
  case (Cons a as)
  show ?case
  proof (cases "as = []")
    case True
    with Cons.prems show ?thesis by auto
  next
    case False
    with Cons.prems have rest: "chain (nx(b := Some c, c := None)) (nx a) (as @ [c])"
      by (intro Cons.IH) auto
    from Cons.prems False have "a \<noteq> b" "a \<noteq> c" by auto
    then have "(nx(b := Some c, c := None)) a = nx a" by simp
    with rest Cons.prems(1) show ?thesis by (simp del: fun_upd_apply)
  qed
qed

lemma push_stack_p2_linked:
  assumes "linked_r2 s as"
  shows "linked_r2 (push_stack_p2 v s) (brk s # as) \<and>
         map (h_val (push_stack_p2 v s)) (brk s # as) = push_stack_r2 v (map (h_val s) as)"
proof -
  from assms have fresh: "brk s \<notin> set as"
    by (auto simp: linked_r2_def list_all_iff)
  with assms show ?thesis
    by (auto simp: linked_r2_def push_stack_p2_def new_stack_node_p2_def malloc_def Let_def
          push_stack_r2_def chain_update list_all_iff)
qed

lemma pop_stack_p2_linked:
  assumes "linked_r2 s as"
  shows "case pop_stack_p2 s of
           Inl e \<Rightarrow> pop_stack_r2 (map (h_val s) as) = Inl e
         | Inr (v, s') \<Rightarrow>
             linked_r2 s' (tl as) \<and>
             pop_stack_r2 (map (h_val s) as) = Inr (v, map (h_val s') (tl as))"
proof (cases as)
  case Nil
  with assms show ?thesis
    by (simp add: linked_r2_def pop_stack_p2_def pop_stack_r2_def)
next
  case (Cons a rest)
  with assms show ?thesis
    by (cases rest)
      (auto simp: linked_r2_def pop_stack_p2_def pop_stack_r2_def deref_def and_then_def
        free_def Let_def list_all_iff)
qed

lemma swap_stack_p2_linked:
  assumes "linked_r2 s as"
  shows "case swap_stack_p2 s of
           Inl e \<Rightarrow> swap_stack_r2 (map (h_val s) as) = Inl e
         | Inr s' \<Rightarrow>
             linked_r2 s' as \<and> swap_stack_r2 (map (h_val s) as) = Inr (map (h_val s') as)"
proof (cases as)
  case Nil
  with assms show ?thesis
    by (simp add: linked_r2_def swap_stack_p2_def swap_stack_r2_def)
next
  case (Cons a rest)
  show ?thesis
  proof (cases rest)
    case Nil
    with Cons assms show ?thesis
      by (auto simp: linked_r2_def swap_stack_p2_def swap_stack_r2_def deref_def and_then_def)
  next
    case (Cons b rest')
    with \<open>as = a # rest\<close> assms show ?thesis
      by (auto simp: linked_r2_def swap_stack_p2_def swap_stack_r2_def deref_def and_then_def
            Let_def)
  qed
qed

lemma dup_stack_p2_linked:
  assumes "linked_r2 s as"
  shows "case dup_stack_p2 s of
           Inl e \<Rightarrow> dup_stack_r2 (map (h_val s) as) = Inl e
         | Inr s' \<Rightarrow>
             linked_r2 s' (brk s # as) \<and>
             dup_stack_r2 (map (h_val s) as) = Inr (map (h_val s') (brk s # as))"
proof (cases as)
  case Nil
  with assms show ?thesis
    by (simp add: linked_r2_def dup_stack_p2_def dup_stack_r2_def)
next
  case (Cons a rest)
  with assms have top: "stack s = Some a" "allocated s a"
    by (simp_all add: linked_r2_def)
  from push_stack_p2_linked [OF assms, of "h_val s a"] top Cons show ?thesis
    by (simp add: dup_stack_p2_def dup_stack_r2_def deref_def and_then_def)
qed

text \<open>
  \<^verbatim>\<open>send_top_to_bottom\<close> moves the top node behind the bottom node: the chain is
  rotated by one, and no value, no allocation changes.
\<close>

lemma send_top_to_bottom_p2_linked:
  assumes "linked_r2 s as" and "as \<noteq> []"
  shows "\<exists>s'. send_top_to_bottom_p2 s = Inr s' \<and> linked_r2 s' (rotate1 as) \<and>
           h_val s' = h_val s \<and> allocated s' = allocated s \<and> brk s' = brk s"
proof (cases as)
  case Nil
  with assms show ?thesis by simp
next
  case (Cons node rest)
  with assms have top: "stack s = Some node" "allocated s node"
    and rest: "chain (h_next s) (h_next s node) rest"
    and dist: "node \<notin> set rest" "distinct rest"
    and alloc: "list_all (\<lambda>a. allocated s a \<and> a < brk s) (node # rest)"
    by (simp_all add: linked_r2_def)
  show ?thesis
  proof (cases rest)
    case Nil
    with rest have "h_next s node = None" by simp
    with top Cons Nil assms show ?thesis
      by (simp add: send_top_to_bottom_p2_def deref_def and_then_def)
  next
    case (Cons n rest')
    let ?b = "last rest"
    from Cons rest have nx: "h_next s node = Some n" by simp
    from Cons assms \<open>as = node # rest\<close> have bot: "bottom s = Some ?b"
      by (simp add: linked_r2_def)
    from Cons alloc have ab: "allocated s ?b"
      by (auto simp: list_all_iff)
    from Cons dist have neq: "?b \<noteq> node"
      by (metis last_in_set list.distinct(1))
    let ?s' = "s\<lparr>h_next := (h_next s)(?b := Some node, node := None),
                 stack := Some n, bottom := Some node\<rparr>"
    have run: "send_top_to_bottom_p2 s = Inr ?s'"
      using top nx bot ab neq
      by (simp add: send_top_to_bottom_p2_def deref_def and_then_def Let_def)
    from Cons have ne: "rest \<noteq> []" by simp
    from rest nx have "chain (h_next s) (Some n) rest" by simp
    from chain_snoc [OF this ne refl dist(2) dist(1)]
    have "chain ((h_next s)(?b := Some node, node := None)) (Some n) (rest @ [node])" .
    with dist alloc have "linked_r2 ?s' (rest @ [node])"
      by (simp add: linked_r2_def)
    with run \<open>as = node # rest\<close> show ?thesis
      by (intro exI [of _ ?s']) simp
  qed
qed

lemma send_top_to_bottom_p2_refines:
  assumes "linked_r2 s as"
  shows "case send_top_to_bottom_p2 s of
           Inl e \<Rightarrow> send_top_to_bottom_r2 (map (h_val s) as) = Inl e
         | Inr s' \<Rightarrow>
             linked_r2 s' (rotate1 as) \<and>
             send_top_to_bottom_r2 (map (h_val s) as) = Inr (map (h_val s') (rotate1 as))"
proof (cases "as = []")
  case True
  with assms show ?thesis
    by (simp add: linked_r2_def send_top_to_bottom_p2_def send_top_to_bottom_r2_def)
next
  case False
  from send_top_to_bottom_p2_linked [OF assms False] obtain s' where
    "send_top_to_bottom_p2 s = Inr s'" "linked_r2 s' (rotate1 as)" "h_val s' = h_val s"
    by blast
  with False show ?thesis
    by (cases as) (simp_all add: send_top_to_bottom_r2_eq rotate1_map)
qed

lemma add_p2_linked:
  assumes "linked_r2 s as"
  shows "case add_p2 s of
           Inl e \<Rightarrow> add_r2 (map (h_val s) as) = Inl e
         | Inr s' \<Rightarrow>
             linked_r2 s' (tl as) \<and> add_r2 (map (h_val s) as) = Inr (map (h_val s') (tl as))"
proof (cases as)
  case Nil
  with assms show ?thesis
    by (simp add: linked_r2_def add_p2_def add_r2_def)
next
  case (Cons a rest)
  show ?thesis
  proof (cases rest)
    case Nil
    with Cons assms show ?thesis
      by (auto simp: linked_r2_def add_p2_def add_r2_def deref_def and_then_def)
  next
    case (Cons b rest')
    with \<open>as = a # rest\<close> assms show ?thesis
      by (auto simp: linked_r2_def add_p2_def add_r2_def deref_def and_then_def free_def
            Let_def list_all_iff)
  qed
qed

text \<open>
  Applied as often as the stack is long, the pointer program gives every node its
  place back.
\<close>

lemma n_times_send_p2:
  assumes "linked_r2 s as" and "as \<noteq> []"
  shows "\<exists>s'. n_times k send_top_to_bottom_p2 s = Inr s' \<and> linked_r2 s' (rotate k as) \<and>
           h_val s' = h_val s \<and> allocated s' = allocated s \<and> brk s' = brk s"
  using assms
proof (induction k arbitrary: s as)
  case 0
  then show ?case by simp
next
  case (Suc k)
  from send_top_to_bottom_p2_linked [OF Suc.prems] obtain s1 where
    step: "send_top_to_bottom_p2 s = Inr s1" and l1: "linked_r2 s1 (rotate1 as)"
    and same: "h_val s1 = h_val s" "allocated s1 = allocated s" "brk s1 = brk s"
    by blast
  from Suc.prems have "rotate1 as \<noteq> []" by simp
  from Suc.IH [OF l1 this] step same show ?case
    by (simp add: rotate1_rotate_swap)
qed

subsection \<open>Revision 1\<close>

text \<open>The globals \<^verbatim>\<open>top\<close>, \<^verbatim>\<open>bottom\<close> and \<^verbatim>\<open>stack_size\<close> of lines 10-15, with the memory.\<close>

record pointers_r1 = memory +
  top :: "addr option"
  bottom_r1 :: "addr option"
  stack_size_r1 :: int

definition new_stack_node_p1 :: "u32 \<Rightarrow> pointers_r1 \<Rightarrow> addr \<times> pointers_r1" where
  "new_stack_node_p1 v s =
     (let (node, s1) = malloc s;
          s2 = s1\<lparr>h_next := (h_next s1)(node := None)\<rparr>;
          s3 = s2\<lparr>h_prev := (h_prev s2)(node := None)\<rparr>
      in (node, s3\<lparr>h_val := (h_val s3)(node := v)\<rparr>))"

text \<open>
  Lines 48-61. With a node already allocated above the top
  (\<^verbatim>\<open>top->prev != NULL\<close>) that node becomes the top; otherwise a new node is linked in.
\<close>

definition push_stack_p1 :: "u32 \<Rightarrow> pointers_r1 \<Rightarrow> stop + pointers_r1" where
  "push_stack_p1 v s =
     and_then (deref s (top s)) (\<lambda>t.
       and_then
         (if h_prev s t \<noteq> None then
            (let s1 = s\<lparr>top := h_prev s t\<rparr>
             in and_then (deref s1 (top s1)) (\<lambda>t'. Inr (s1\<lparr>h_val := (h_val s1)(t' := v)\<rparr>)))
          else
            (let (node, s1) = new_stack_node_p1 v s;
                 s2 = s1\<lparr>h_prev := (h_prev s1)(t := Some node)\<rparr>;
                 s3 = s2\<lparr>h_next := (h_next s2)(node := top s2)\<rparr>
             in Inr (s3\<lparr>top := Some node\<rparr>)))
         (\<lambda>s'. Inr (s'\<lparr>stack_size_r1 := stack_size_r1 s' + 1\<rparr>)))"

definition pop_stack_p1 :: "pointers_r1 \<Rightarrow> stop + (u32 \<times> pointers_r1)" where
  "pop_stack_p1 s =
     (if stack_size_r1 s = 0 then Inl PopEmpty
      else and_then (deref s (top s)) (\<lambda>t.
        let to_return = h_val s t;
            s1 = s\<lparr>top := h_next s t\<rparr>
        in Inr (to_return, s1\<lparr>stack_size_r1 := stack_size_r1 s1 - 1\<rparr>)))"

definition swap_stack_p1 :: "pointers_r1 \<Rightarrow> stop + pointers_r1" where
  "swap_stack_p1 s =
     (if stack_size_r1 s < 2 then Inl (SwapUnderflow (stack_size_r1 s = 1))
      else and_then (deref s (top s)) (\<lambda>a.
        and_then (deref s (h_next s a)) (\<lambda>b.
          let temp = h_val s a;
              s1 = s\<lparr>h_val := (h_val s)(a := h_val s b)\<rparr>
          in Inr (s1\<lparr>h_val := (h_val s1)(b := temp)\<rparr>))))"

definition dup_stack_p1 :: "pointers_r1 \<Rightarrow> stop + pointers_r1" where
  "dup_stack_p1 s =
     (if stack_size_r1 s = 0 then Inl DupEmpty
      else and_then (deref s (top s)) (\<lambda>t. push_stack_p1 (h_val s t) s))"

text \<open>
  Lines 101-120:
  \<^verbatim>\<open>temp = top; top = top->next; top->prev = temp->prev;\<close>
  \<^verbatim>\<open>if (temp->prev != NULL) temp->prev->next = top;\<close>
  \<^verbatim>\<open>bottom->next = temp; temp->prev = bottom; bottom = temp; temp->next = NULL;\<close>
\<close>

definition send_top_to_bottom_p1 :: "pointers_r1 \<Rightarrow> stop + pointers_r1" where
  "send_top_to_bottom_p1 s =
     (if stack_size_r1 s = 0 then Inl SendBottomEmpty
      else if stack_size_r1 s = 1 then Inr s
      else and_then (deref s (top s)) (\<lambda>temp.
        let s1 = s\<lparr>top := h_next s temp\<rparr>
        in and_then (deref s1 (top s1)) (\<lambda>t.
          let s2 = s1\<lparr>h_prev := (h_prev s1)(t := h_prev s1 temp)\<rparr>
          in and_then
               (if h_prev s2 temp \<noteq> None
                then and_then (deref s2 (h_prev s2 temp)) (\<lambda>p.
                       Inr (s2\<lparr>h_next := (h_next s2)(p := top s2)\<rparr>))
                else Inr s2)
               (\<lambda>s3. and_then (deref s3 (bottom_r1 s3)) (\<lambda>b.
                  let s4 = s3\<lparr>h_next := (h_next s3)(b := Some temp)\<rparr>;
                      s5 = s4\<lparr>h_prev := (h_prev s4)(temp := bottom_r1 s4)\<rparr>;
                      s6 = s5\<lparr>bottom_r1 := Some temp\<rparr>
                  in Inr (s6\<lparr>h_next := (h_next s6)(temp := None)\<rparr>))))))"

text \<open>
  \<open>linked_r1 s as sp\<close>: the stack is made of the nodes \<open>as\<close>, top first, and \<open>sp\<close> are
  the spare nodes above the top, nearest first. From the last spare node \<^verbatim>\<open>next\<close>
  leads through all of them to the bottom node, and \<^verbatim>\<open>prev\<close> leads the same way back.
  Once the stack is empty, \<^verbatim>\<open>top\<close> is \<^verbatim>\<open>NULL\<close>.
\<close>

definition linked_r1 :: "pointers_r1 \<Rightarrow> addr list \<Rightarrow> addr list \<Rightarrow> bool" where
  "linked_r1 s as sp \<longleftrightarrow>
     stack_size_r1 s = int (length as) \<and>
     (if as = [] then top s = None
      else top s = Some (hd as) \<and> bottom_r1 s = Some (last as) \<and>
           chain (h_next s) (Some (hd (rev sp @ as))) (rev sp @ as) \<and>
           chain (h_prev s) (Some (last as)) (rev as @ sp) \<and>
           distinct (sp @ as) \<and>
           list_all (\<lambda>a. allocated s a \<and> a < brk s) (sp @ as))"

text \<open>The stack model that a memory stands for.\<close>

definition stack_of_p1 :: "pointers_r1 \<Rightarrow> addr list \<Rightarrow> addr list \<Rightarrow> stack_r1" where
  "stack_of_p1 s as sp =
     \<lparr>nodes = map (h_val s) as, spare = map (h_val s) sp, stack_size = stack_size_r1 s\<rparr>"

text \<open>\<open>seg nx p as q\<close>: from \<open>p\<close> the field \<open>nx\<close> leads through \<open>as\<close> to the pointer \<open>q\<close>.\<close>

primrec seg :: "(addr \<Rightarrow> addr option) \<Rightarrow> addr option \<Rightarrow> addr list \<Rightarrow> addr option \<Rightarrow> bool" where
  "seg nx p [] q \<longleftrightarrow> p = q"
| "seg nx p (a # as) q \<longleftrightarrow> p = Some a \<and> seg nx (nx a) as q"

lemma chain_seg: "chain nx p as = seg nx p as None"
  by (induction as arbitrary: p) auto

lemma seg_append:
  "seg nx p (as @ bs) q \<longleftrightarrow> (\<exists>r. seg nx p as r \<and> seg nx r bs q)"
  by (induction as arbitrary: p) auto

lemma seg_update: "a \<notin> set as \<Longrightarrow> seg (nx(a := y)) p as q = seg nx p as q"
  by (induction as arbitrary: p) auto

lemma seg_last:
  "seg nx p as q \<Longrightarrow> as \<noteq> [] \<Longrightarrow> nx (last as) = q"
  by (induction as arbitrary: p) (auto split: if_splits)

lemma seg_hd:
  "seg nx p as q \<Longrightarrow> as \<noteq> [] \<Longrightarrow> p = Some (hd as)"
  by (cases as) auto

lemma seg_relink:
  "seg nx p as q \<Longrightarrow> as \<noteq> [] \<Longrightarrow> last as = b \<Longrightarrow> distinct as \<Longrightarrow>
   seg (nx(b := r)) p as r"
proof (induction as arbitrary: p)
  case Nil
  then show ?case by simp
next
  case (Cons a as)
  show ?case
  proof (cases "as = []")
    case True
    with Cons.prems show ?thesis by auto
  next
    case False
    with Cons.prems have rest: "seg (nx(b := r)) (nx a) as r"
      by (intro Cons.IH) auto
    from Cons.prems False have "a \<noteq> b" by auto
    then have "(nx(b := r)) a = nx a" by simp
    with rest Cons.prems(1) show ?thesis by (simp del: fun_upd_apply)
  qed
qed

lemma linked_r1_empty: "linked_r1 s [] sp \<longleftrightarrow> stack_size_r1 s = 0 \<and> top s = None"
  by (simp add: linked_r1_def)

text \<open>What \<open>linked_r1\<close> says of a stack that is not empty, piece by piece.\<close>

lemma linked_r1_Cons:
  "linked_r1 s (a # rest) sp \<longleftrightarrow>
     stack_size_r1 s = 1 + int (length rest) \<and>
     top s = Some a \<and> bottom_r1 s = Some (last (a # rest)) \<and>
     seg (h_next s) (Some (hd (rev sp @ [a]))) (rev sp) (Some a) \<and>
     seg (h_next s) (h_next s a) rest None \<and>
     seg (h_prev s) (Some (last (a # rest))) (rev rest) (Some a) \<and>
     seg (h_prev s) (h_prev s a) sp None \<and>
     distinct (sp @ a # rest) \<and>
     list_all (\<lambda>a. allocated s a \<and> a < brk s) (sp @ a # rest)"
proof -
  have next_chain:
    "seg (h_next s) (Some (hd (rev sp @ a # rest))) (rev sp @ a # rest) None \<longleftrightarrow>
     seg (h_next s) (Some (hd (rev sp @ [a]))) (rev sp) (Some a) \<and>
     seg (h_next s) (h_next s a) rest None"
    by (cases "rev sp") (auto simp: seg_append)
  have prev_chain:
    "seg (h_prev s) (Some (last (a # rest))) (rev rest @ a # sp) None \<longleftrightarrow>
     seg (h_prev s) (Some (last (a # rest))) (rev rest) (Some a) \<and>
     seg (h_prev s) (h_prev s a) sp None"
    by (auto simp: seg_append)
  show ?thesis
    unfolding linked_r1_def chain_seg
    using next_chain prev_chain by auto
qed

lemma pop_stack_p1_linked:
  assumes "linked_r1 s as sp"
  shows "case pop_stack_p1 s of
           Inl e \<Rightarrow> pop_stack_r1 (stack_of_p1 s as sp) = Inl e
         | Inr (v, s') \<Rightarrow>
             linked_r1 s' (tl as) (hd as # sp) \<and>
             pop_stack_r1 (stack_of_p1 s as sp) = Inr (v, stack_of_p1 s' (tl as) (hd as # sp))"
proof (cases as)
  case Nil
  with assms show ?thesis
    by (simp add: linked_r1_empty pop_stack_p1_def pop_stack_r1_def stack_of_p1_def)
next
  case (Cons a rest)
  from assms [unfolded Cons linked_r1_Cons]
  have size: "stack_size_r1 s = 1 + int (length rest)"
    and top: "top s = Some a"
    and bot: "bottom_r1 s = Some (last (a # rest))"
    and n1: "seg (h_next s) (Some (hd (rev sp @ [a]))) (rev sp) (Some a)"
    and n2: "seg (h_next s) (h_next s a) rest None"
    and p1: "seg (h_prev s) (Some (last (a # rest))) (rev rest) (Some a)"
    and p2: "seg (h_prev s) (h_prev s a) sp None"
    and dist: "distinct (sp @ a # rest)"
    and alloc: "list_all (\<lambda>a. allocated s a \<and> a < brk s) (sp @ a # rest)"
    by simp_all
  let ?s' = "s\<lparr>top := h_next s a, stack_size_r1 := stack_size_r1 s - 1\<rparr>"
  from top alloc size have run: "pop_stack_p1 s = Inr (h_val s a, ?s')"
    by (simp add: pop_stack_p1_def deref_def and_then_def Let_def)
  have "linked_r1 ?s' rest (a # sp)"
  proof (cases rest)
    case Nil
    with n2 size show ?thesis by (simp add: linked_r1_empty)
  next
    case (Cons b rest')
    from n2 Cons have nb: "h_next s a = Some b" and n3: "seg (h_next s) (h_next s b) rest' None"
      by simp_all
    from p1 Cons have p3: "seg (h_prev s) (Some (last (b # rest'))) (rev rest') (Some b)"
      and pb: "h_prev s b = Some a"
      by (auto simp: seg_append)
    have "seg (h_next s) (Some (hd (rev (a # sp) @ [b]))) (rev (a # sp)) (Some b)"
      using n1 nb by (cases "rev sp") (auto simp: seg_append)
    moreover have "seg (h_prev s) (h_prev s b) (a # sp) None"
      using pb p2 by simp
    ultimately show ?thesis
      unfolding Cons linked_r1_Cons
      using size bot nb n3 p3 dist alloc Cons by auto
  qed
  with run Cons size show ?thesis
    by (simp add: pop_stack_r1_def stack_of_p1_def)
qed

lemma push_stack_p1_linked:
  assumes "linked_r1 s as sp"
  shows "case push_stack_p1 v s of
           Inl e \<Rightarrow> push_stack_r1 v (stack_of_p1 s as sp) = Inl e
         | Inr s' \<Rightarrow>
             (case sp of
                [] \<Rightarrow>
                  linked_r1 s' (brk s # as) [] \<and>
                  push_stack_r1 v (stack_of_p1 s as sp) = Inr (stack_of_p1 s' (brk s # as) [])
              | p # sp' \<Rightarrow>
                  linked_r1 s' (p # as) sp' \<and>
                  push_stack_r1 v (stack_of_p1 s as sp) = Inr (stack_of_p1 s' (p # as) sp'))"
proof (cases as)
  case Nil
  with assms show ?thesis
    by (simp add: linked_r1_empty push_stack_p1_def push_stack_r1_def stack_of_p1_def
          deref_def and_then_def)
next
  case (Cons a rest)
  from assms [unfolded Cons linked_r1_Cons]
  have size: "stack_size_r1 s = 1 + int (length rest)"
    and top: "top s = Some a"
    and bot: "bottom_r1 s = Some (last (a # rest))"
    and n1: "seg (h_next s) (Some (hd (rev sp @ [a]))) (rev sp) (Some a)"
    and n2: "seg (h_next s) (h_next s a) rest None"
    and p1: "seg (h_prev s) (Some (last (a # rest))) (rev rest) (Some a)"
    and p2: "seg (h_prev s) (h_prev s a) sp None"
    and dist: "distinct (sp @ a # rest)"
    and alloc: "list_all (\<lambda>a. allocated s a \<and> a < brk s) (sp @ a # rest)"
    by simp_all
  from alloc have aa: "allocated s a" by simp
  show ?thesis
  proof (cases sp)
    case Nil
    let ?node = "brk s"
    from alloc have fresh: "?node \<noteq> a" "?node \<notin> set rest"
      by (auto simp: list_all_iff)
    from p2 Nil have pa: "h_prev s a = None" by simp
    let ?s' = "s\<lparr>h_val := (h_val s)(?node := v),
                 h_next := (h_next s)(?node := Some a),
                 h_prev := (h_prev s)(?node := None, a := Some ?node),
                 allocated := (allocated s)(?node := True),
                 brk := Suc ?node,
                 top := Some ?node,
                 stack_size_r1 := stack_size_r1 s + 1\<rparr>"
    from top aa pa have run: "push_stack_p1 v s = Inr ?s'"
      by (simp add: push_stack_p1_def new_stack_node_p1_def malloc_def deref_def and_then_def
            Let_def)
    have nx: "seg (h_next ?s') (h_next ?s' a) rest None"
      using n2 fresh by (simp add: seg_update)
    have "seg ((h_prev s)(?node := None)) (Some (last (a # rest))) (rev rest) (Some a)"
      using p1 fresh by (simp add: seg_update)
    then have pv: "seg (h_prev ?s') (Some (last (a # rest))) (rev rest) (Some a)"
      using dist by (simp add: seg_update)
    have "linked_r1 ?s' (?node # a # rest) []"
      unfolding linked_r1_Cons
      using size bot nx pv dist alloc fresh Nil
      by (auto simp: seg_append list_all_iff)
    with run Nil Cons size show ?thesis
      using fresh by (simp add: push_stack_r1_def stack_of_p1_def)
  next
    case (Cons p sp')
    from p2 Cons have pa: "h_prev s a = Some p" and p3: "seg (h_prev s) (h_prev s p) sp' None"
      by simp_all
    from alloc Cons have ap: "allocated s p" by simp
    let ?s' = "s\<lparr>h_val := (h_val s)(p := v), top := Some p,
                 stack_size_r1 := stack_size_r1 s + 1\<rparr>"
    from top aa pa ap have run: "push_stack_p1 v s = Inr ?s'"
      by (simp add: push_stack_p1_def deref_def and_then_def Let_def)
    from n1 Cons have n3: "seg (h_next s) (Some (hd (rev sp' @ [p]))) (rev sp') (Some p)"
      and np: "h_next s p = Some a"
      by (cases "rev sp'"; auto simp: seg_append)+
    have "linked_r1 ?s' (p # a # rest) sp'"
      unfolding linked_r1_Cons
      using size bot n2 n3 np p1 pa p3 dist alloc Cons
      by (auto simp: seg_append)
    with run Cons \<open>as = a # rest\<close> size dist show ?thesis
      by (auto simp: push_stack_r1_def stack_of_p1_def)
  qed
qed


lemma swap_stack_p1_linked:
  assumes "linked_r1 s as sp"
  shows "case swap_stack_p1 s of
           Inl e \<Rightarrow> swap_stack_r1 (stack_of_p1 s as sp) = Inl e
         | Inr s' \<Rightarrow>
             linked_r1 s' as sp \<and>
             (\<exists>st. swap_stack_r1 (stack_of_p1 s as sp) = Inr st \<and>
                   nodes st = map (h_val s') as \<and> stack_size st = stack_size_r1 s')"
proof (cases as)
  case Nil
  with assms show ?thesis
    by (simp add: linked_r1_empty swap_stack_p1_def swap_stack_r1_def stack_of_p1_def)
next
  case (Cons a rest)
  note outer = Cons
  from assms [unfolded Cons linked_r1_Cons]
  have size: "stack_size_r1 s = 1 + int (length rest)"
    and top: "top s = Some a"
    and n2: "seg (h_next s) (h_next s a) rest None"
    and dist: "distinct (sp @ a # rest)"
    and alloc: "list_all (\<lambda>a. allocated s a \<and> a < brk s) (sp @ a # rest)"
    by simp_all
  show ?thesis
  proof (cases rest)
    case Nil
    with outer size show ?thesis
      by (simp add: swap_stack_p1_def swap_stack_r1_def stack_of_p1_def)
  next
    case (Cons b rest')
    from n2 Cons have nb: "h_next s a = Some b" by simp
    let ?s' = "s\<lparr>h_val := (h_val s)(a := h_val s b, b := h_val s a)\<rparr>"
    from top nb alloc size Cons have run: "swap_stack_p1 s = Inr ?s'"
      by (simp add: swap_stack_p1_def deref_def and_then_def Let_def)
    from assms have "linked_r1 ?s' as sp"
      by (auto simp: linked_r1_def split: if_splits)
    with run outer Cons size dist show ?thesis
      by (auto simp: swap_stack_r1_def stack_of_p1_def)
  qed
qed

lemma dup_stack_p1_linked:
  assumes "linked_r1 s as sp"
  shows "case dup_stack_p1 s of
           Inl e \<Rightarrow> dup_stack_r1 (stack_of_p1 s as sp) = Inl e
         | Inr s' \<Rightarrow>
             (case sp of
                [] \<Rightarrow>
                  linked_r1 s' (brk s # as) [] \<and>
                  dup_stack_r1 (stack_of_p1 s as sp) = Inr (stack_of_p1 s' (brk s # as) [])
              | p # sp' \<Rightarrow>
                  linked_r1 s' (p # as) sp' \<and>
                  dup_stack_r1 (stack_of_p1 s as sp) = Inr (stack_of_p1 s' (p # as) sp'))"
proof (cases as)
  case Nil
  with assms show ?thesis
    by (simp add: linked_r1_empty dup_stack_p1_def dup_stack_r1_def stack_of_p1_def)
next
  case (Cons a rest)
  from assms [unfolded Cons linked_r1_Cons]
  have size: "stack_size_r1 s = 1 + int (length rest)"
    and top: "top s = Some a"
    and alloc: "list_all (\<lambda>a. allocated s a \<and> a < brk s) (sp @ a # rest)"
    by simp_all
  from top alloc size have "dup_stack_p1 s = push_stack_p1 (h_val s a) s"
    by (simp add: dup_stack_p1_def deref_def and_then_def)
  moreover from Cons size
  have "dup_stack_r1 (stack_of_p1 s as sp) = push_stack_r1 (h_val s a) (stack_of_p1 s as sp)"
    by (simp add: dup_stack_r1_def stack_of_p1_def)
  ultimately show ?thesis
    using push_stack_p1_linked [OF assms, of "h_val s a"]
    by (simp split: sum.splits list.splits)
qed

text \<open>
  \<^verbatim>\<open>send_top_to_bottom\<close> of revision 1 on a stack of two nodes or more: the top node
  is taken out between the spare nodes and the second node and linked in behind the
  bottom node, in both directions. The chain is rotated by one; the spare nodes, the
  values and the allocation stay.
\<close>

lemma send_top_to_bottom_p1_linked:
  assumes "linked_r1 s (temp # n # rest) sp"
  shows "\<exists>s'. send_top_to_bottom_p1 s = Inr s' \<and> linked_r1 s' (n # rest @ [temp]) sp \<and>
           h_val s' = h_val s \<and> allocated s' = allocated s \<and> brk s' = brk s"
proof -
  let ?M = "n # rest"
  let ?b = "last ?M"
  from assms [unfolded linked_r1_Cons]
  have size: "stack_size_r1 s = 1 + int (length ?M)"
    and top: "top s = Some temp"
    and bot: "bottom_r1 s = Some ?b"
    and n1: "seg (h_next s) (Some (hd (rev sp @ [temp]))) (rev sp) (Some temp)"
    and n2: "seg (h_next s) (h_next s temp) ?M None"
    and p1: "seg (h_prev s) (Some ?b) (rev ?M) (Some temp)"
    and p2: "seg (h_prev s) (h_prev s temp) sp None"
    and dist: "distinct (sp @ temp # ?M)"
    and alloc: "list_all (\<lambda>a. allocated s a \<and> a < brk s) (sp @ temp # ?M)"
    by simp_all
  from n2 have nt: "h_next s temp = Some n" by simp
  with n2 have m: "seg (h_next s) (Some n) ?M None" by simp
  have b_in: "?b \<in> set ?M" by (rule last_in_set) simp
  with alloc have ab: "allocated s ?b" by (auto simp: list_all_iff)
  from alloc have at: "allocated s temp" and an: "allocated s n" by simp_all
  from dist b_in have b_temp: "?b \<noteq> temp" and b_sp: "?b \<notin> set sp" by auto
  from dist have t_M: "temp \<notin> set ?M" and t_sp: "temp \<notin> set sp" and n_sp: "n \<notin> set sp"
    and n_temp: "n \<noteq> temp"
    by auto
  let ?base = "case sp of [] \<Rightarrow> h_next s | p # _ \<Rightarrow> (h_next s)(p := Some n)"
  let ?nx = "?base(?b := Some temp, temp := None)"
  let ?pv = "(h_prev s)(n := h_prev s temp, temp := Some ?b)"
  let ?s' = "s\<lparr>h_next := ?nx, h_prev := ?pv, top := Some n, bottom_r1 := Some temp\<rparr>"
  have run: "send_top_to_bottom_p1 s = Inr ?s'"
  proof (cases sp)
    case Nil
    with p2 have "h_prev s temp = None" by simp
    with Nil size top nt bot at an ab n_temp show ?thesis
      by (simp add: send_top_to_bottom_p1_def deref_def and_then_def Let_def)
  next
    case (Cons p sp')
    with p2 have pt: "h_prev s temp = Some p" by simp
    from alloc Cons have "allocated s p" by simp
    with Cons pt size top nt bot at an ab n_temp show ?thesis
      by (simp add: send_top_to_bottom_p1_def deref_def and_then_def Let_def)
  qed
  have spare_part: "seg ?nx (Some (hd (rev sp @ [n]))) (rev sp) (Some n)"
  proof (cases sp)
    case Nil
    then show ?thesis by simp
  next
    case (Cons p sp')
    then have ne: "rev sp \<noteq> []" and lp: "last (rev sp) = p" by simp_all
    from dist have "distinct (rev sp)" by simp
    from seg_relink [OF n1 ne lp this, of "Some n"] ne
    have "seg ((h_next s)(p := Some n)) (Some (hd (rev sp @ [n]))) (rev sp) (Some n)"
      by (simp add: hd_append)
    with Cons b_sp t_sp show ?thesis
      by (simp add: seg_update)
  qed
  have "seg ?base (Some n) ?M None"
  proof (cases sp)
    case Nil
    with m show ?thesis by simp
  next
    case (Cons p sp')
    with dist have "p \<notin> set ?M" by auto
    with m Cons show ?thesis by (simp add: seg_update del: seg.simps)
  qed
  moreover from dist have "distinct ?M" by simp
  ultimately have "seg (?base(?b := Some temp)) (Some n) ?M (Some temp)"
    by (intro seg_relink) simp_all
  with t_M have stack_part: "seg ?nx (Some n) ?M (Some temp)"
    by (simp add: seg_update del: seg.simps)
  have "?nx temp = None" by simp
  with spare_part stack_part
  have next_chain: "seg ?nx (Some (hd (rev sp @ ?M @ [temp]))) (rev sp @ ?M @ [temp]) None"
    unfolding seg_append [of _ _ "rev sp"] seg_append [of _ _ ?M]
    by (cases "rev sp") (auto simp del: fun_upd_apply)
  from dist have "distinct (rev ?M)" by simp
  from seg_relink [OF p1 _ _ this, of n "h_prev s temp"]
  have "seg ((h_prev s)(n := h_prev s temp)) (Some ?b) (rev ?M) (h_prev s temp)"
    by simp
  with t_M have back_stack: "seg ?pv (Some ?b) (rev ?M) (h_prev s temp)"
    by (simp add: seg_update del: seg.simps)
  from p2 n_sp t_sp have back_spare: "seg ?pv (h_prev s temp) sp None"
    by (simp add: seg_update)
  have "?pv temp = Some ?b" by simp
  with back_stack back_spare
  have prev_chain: "seg ?pv (Some temp) (rev (?M @ [temp]) @ sp) None"
    by (auto simp: seg_append simp del: fun_upd_apply)
  from dist have d': "distinct (sp @ ?M @ [temp])" by auto
  from alloc have a': "list_all (\<lambda>a. allocated s a \<and> a < brk s) (sp @ ?M @ [temp])"
    by (auto simp: list_all_iff)
  have "linked_r1 ?s' (?M @ [temp]) sp"
    unfolding linked_r1_def chain_seg
    using size next_chain prev_chain d' a'
    by (simp del: fun_upd_apply seg.simps distinct_append list_all_append)
  with run show ?thesis
    by (intro exI [of _ ?s']) simp
qed

lemma send_top_to_bottom_p1_rotates:
  assumes "linked_r1 s as sp" and "as \<noteq> []"
  shows "\<exists>s'. send_top_to_bottom_p1 s = Inr s' \<and> linked_r1 s' (rotate1 as) sp \<and>
           h_val s' = h_val s \<and> allocated s' = allocated s \<and> brk s' = brk s \<and>
           stack_size_r1 s' = stack_size_r1 s"
proof (cases as)
  case Nil
  with assms show ?thesis by simp
next
  case (Cons temp rest)
  show ?thesis
  proof (cases rest)
    case Nil
    with Cons assms have "stack_size_r1 s = 1"
      by (simp add: linked_r1_def)
    with Cons Nil assms show ?thesis
      by (simp add: send_top_to_bottom_p1_def)
  next
    case (Cons n rest')
    with \<open>as = temp # rest\<close> assms have l: "linked_r1 s (temp # n # rest') sp" by simp
    from send_top_to_bottom_p1_linked [OF l] obtain s' where
      run: "send_top_to_bottom_p1 s = Inr s'" and l': "linked_r1 s' (n # rest' @ [temp]) sp"
      and same: "h_val s' = h_val s" "allocated s' = allocated s" "brk s' = brk s"
      by blast
    from l l' have "stack_size_r1 s' = stack_size_r1 s"
      by (simp add: linked_r1_def)
    with run l' same Cons \<open>as = temp # rest\<close> show ?thesis by simp
  qed
qed

lemma send_top_to_bottom_p1_refines:
  assumes "linked_r1 s as sp"
  shows "case send_top_to_bottom_p1 s of
           Inl e \<Rightarrow> send_top_to_bottom_r1 (stack_of_p1 s as sp) = Inl e
         | Inr s' \<Rightarrow>
             linked_r1 s' (rotate1 as) sp \<and>
             send_top_to_bottom_r1 (stack_of_p1 s as sp) = Inr (stack_of_p1 s' (rotate1 as) sp)"
proof (cases "as = []")
  case True
  with assms show ?thesis
    by (simp add: linked_r1_empty send_top_to_bottom_p1_def send_top_to_bottom_r1_def
          stack_of_p1_def)
next
  case False
  from send_top_to_bottom_p1_rotates [OF assms False] obtain s' where
    run: "send_top_to_bottom_p1 s = Inr s'" and l: "linked_r1 s' (rotate1 as) sp"
    and same: "h_val s' = h_val s" "stack_size_r1 s' = stack_size_r1 s"
    by blast
  from assms have "counted_r1 (stack_of_p1 s as sp)"
    by (simp add: counted_r1_def stack_of_p1_def linked_r1_def)
  from send_top_to_bottom_r1_eq [OF this] False
  have "send_top_to_bottom_r1 (stack_of_p1 s as sp) = Inr (stack_of_p1 s' (rotate1 as) sp)"
    using same by (cases as) (simp_all add: stack_of_p1_def)
  with run l show ?thesis by simp
qed

lemma n_times_send_p1:
  assumes "linked_r1 s as sp" and "as \<noteq> []"
  shows "\<exists>s'. n_times k send_top_to_bottom_p1 s = Inr s' \<and> linked_r1 s' (rotate k as) sp \<and>
           h_val s' = h_val s \<and> allocated s' = allocated s \<and> brk s' = brk s"
  using assms
proof (induction k arbitrary: s as)
  case 0
  then show ?case by simp
next
  case (Suc k)
  from send_top_to_bottom_p1_rotates [OF Suc.prems] obtain s1 where
    step: "send_top_to_bottom_p1 s = Inr s1" and l1: "linked_r1 s1 (rotate1 as) sp"
    and same: "h_val s1 = h_val s" "allocated s1 = allocated s" "brk s1 = brk s"
    by blast
  from Suc.prems have "rotate1 as \<noteq> []" by simp
  from Suc.IH [OF l1 this] step same show ?case
    by (simp add: rotate1_rotate_swap)
qed

subsection \<open>The first node\<close>

text \<open>
  \<^verbatim>\<open>execute_code\<close> starts with \<^verbatim>\<open>top = new_stack_node(0); bottom = top;\<close> (revision 2:
  \<^verbatim>\<open>stack = new_stack_node(0); bottom = stack;\<close>) in a memory without nodes.
\<close>

definition no_memory :: memory where
  "no_memory =
     \<lparr>h_val = (\<lambda>a. 0), h_next = (\<lambda>a. None), h_prev = (\<lambda>a. None),
      allocated = (\<lambda>a. False), brk = 0\<rparr>"

definition first_node_p1 :: pointers_r1 where
  "first_node_p1 =
     (let (node, s) =
            new_stack_node_p1 0 (memory.extend no_memory
              (pointers_r1.fields None None 1));
          s1 = s\<lparr>top := Some node\<rparr>
      in s1\<lparr>bottom_r1 := top s1\<rparr>)"

definition first_node_p2 :: pointers_r2 where
  "first_node_p2 =
     (let (node, s) =
            new_stack_node_p2 0 (memory.extend no_memory (pointers_r2.fields None None));
          s1 = s\<lparr>stack := Some node\<rparr>
      in s1\<lparr>bottom := stack s1\<rparr>)"

lemma first_node_p1_linked:
  "linked_r1 first_node_p1 [0] [] \<and>
   stack_of_p1 first_node_p1 [0] [] = \<lparr>nodes = [0], spare = [], stack_size = 1\<rparr>"
  by (simp add: first_node_p1_def new_stack_node_p1_def malloc_def no_memory_def
        memory.extend_def pointers_r1.fields_def linked_r1_def stack_of_p1_def Let_def)

lemma first_node_p2_linked:
  "linked_r2 first_node_p2 [0] \<and> map (h_val first_node_p2) [0] = [0]"
  by (simp add: first_node_p2_def new_stack_node_p2_def malloc_def no_memory_def
        memory.extend_def pointers_r2.fields_def linked_r2_def Let_def)

section \<open>The rotation, from the list to the pointers\<close>

text \<open>
  Two memories for the examples. In \<open>example_p2\<close> the stack of revision 2 is the
  chain of the nodes 2, 1, 0. In \<open>example_p1\<close> the stack of revision 1 is the same
  chain, below one spare node 3, with the \<^verbatim>\<open>prev\<close> links leading back.
\<close>

definition example_p2 :: pointers_r2 where
  "example_p2 =
     \<lparr>h_val = (\<lambda>a. 0)(0 := 10, 1 := 20, 2 := 30),
      h_next = (\<lambda>a. None)(1 := Some 0, 2 := Some 1),
      h_prev = (\<lambda>a. None),
      allocated = (\<lambda>a. a < 3), brk = 3,
      stack = Some 2, bottom = Some 0\<rparr>"

definition example_p1 :: pointers_r1 where
  "example_p1 =
     \<lparr>h_val = (\<lambda>a. 0)(0 := 10, 1 := 20, 2 := 30),
      h_next = (\<lambda>a. None)(1 := Some 0, 2 := Some 1, 3 := Some 2),
      h_prev = (\<lambda>a. None)(0 := Some 1, 1 := Some 2, 2 := Some 3),
      allocated = (\<lambda>a. a < 4), brk = 4,
      top = Some 2, bottom_r1 = Some 0, stack_size_r1 = 3\<rparr>"

text \<open>
  Claim C7. On a stack of one value opcode \<open>9\<close> changes nothing; on a longer stack the
  top value \<open>x\<close> goes below all others, which keep their order; on the empty stack the
  process stops with the message of \<^verbatim>\<open>send_top_to_bottom\<close> and status 1. Applied as
  many times as the stack has values, \<^verbatim>\<open>send_top_to_bottom\<close> gives the stack back as
  it was. Revision 1 is read under the agreement of its counter with its chain.

  The same holds of the pointer programs: on a memory whose chain is \<open>as\<close>, they fail
  where the list model fails and otherwise leave the chain \<open>rotate1 as\<close> (the first
  node moved behind the last) standing for the stack the list model gives; applied
  as often as the chain is long, they leave every node in its place with its value.
\<close>

theorem rotation_returns_after_n:
  "(counted_r1 (stk m1) \<longrightarrow>
      switch_r1 CHR ''9'' vis i m1 =
        (case nodes (stk m1) of
           [] \<Rightarrow> Stop SendBottomEmpty
         | [x] \<Rightarrow> Continue i m1
         | x # y # ys \<Rightarrow> Continue i (m1\<lparr>stk := (stk m1)\<lparr>nodes := (y # ys) @ [x]\<rparr>\<rparr>)) \<and>
      (nodes (stk m1) \<noteq> [] \<longrightarrow>
         n_times (length (nodes (stk m1))) send_top_to_bottom_r1 (stk m1) = Inr (stk m1))) \<and>
   switch_r2 CHR ''9'' vis i m2 =
     (case stk m2 of
        [] \<Rightarrow> Stop SendBottomEmpty
      | [x] \<Rightarrow> Continue i m2
      | x # y # ys \<Rightarrow> Continue i (m2\<lparr>stk := (y # ys) @ [x]\<rparr>)) \<and>
   (stk m2 \<noteq> [] \<longrightarrow> n_times (length (stk m2)) send_top_to_bottom_r2 (stk m2) = Inr (stk m2)) \<and>
   (linked_r1 p1 as1 sp1 \<longrightarrow>
      (case send_top_to_bottom_p1 p1 of
         Inl e \<Rightarrow> send_top_to_bottom_r1 (stack_of_p1 p1 as1 sp1) = Inl e
       | Inr q \<Rightarrow>
           linked_r1 q (rotate1 as1) sp1 \<and>
           send_top_to_bottom_r1 (stack_of_p1 p1 as1 sp1) =
             Inr (stack_of_p1 q (rotate1 as1) sp1)) \<and>
      (as1 \<noteq> [] \<longrightarrow>
         (\<exists>q. n_times (length as1) send_top_to_bottom_p1 p1 = Inr q \<and>
              linked_r1 q as1 sp1 \<and> h_val q = h_val p1))) \<and>
   (linked_r2 p2 as2 \<longrightarrow>
      (case send_top_to_bottom_p2 p2 of
         Inl e \<Rightarrow> send_top_to_bottom_r2 (map (h_val p2) as2) = Inl e
       | Inr q \<Rightarrow>
           linked_r2 q (rotate1 as2) \<and>
           send_top_to_bottom_r2 (map (h_val p2) as2) = Inr (map (h_val q) (rotate1 as2))) \<and>
      (as2 \<noteq> [] \<longrightarrow>
         (\<exists>q. n_times (length as2) send_top_to_bottom_p2 p2 = Inr q \<and>
              linked_r2 q as2 \<and> h_val q = h_val p2))) \<and>
   exit_status SendBottomEmpty = Some 1"
proof -
  have a: "switch_r1 CHR ''9'' vis i m1 =
        (case nodes (stk m1) of
           [] \<Rightarrow> Stop SendBottomEmpty
         | [x] \<Rightarrow> Continue i m1
         | x # y # ys \<Rightarrow> Continue i (m1\<lparr>stk := (stk m1)\<lparr>nodes := (y # ys) @ [x]\<rparr>\<rparr>))"
    if "counted_r1 (stk m1)"
    using that
    by (cases "stk m1")
      (auto simp: switch_r1_def on_stack_def send_top_to_bottom_r1_def counted_r1_def
        split: list.splits)
  have b: "n_times (length (nodes (stk m1))) send_top_to_bottom_r1 (stk m1) = Inr (stk m1)"
    if "counted_r1 (stk m1)" "nodes (stk m1) \<noteq> []"
    by (simp add: n_times_send_r1 [OF that])
  have c: "switch_r2 CHR ''9'' vis i m2 =
     (case stk m2 of
        [] \<Rightarrow> Stop SendBottomEmpty
      | [x] \<Rightarrow> Continue i m2
      | x # y # ys \<Rightarrow> Continue i (m2\<lparr>stk := (y # ys) @ [x]\<rparr>))"
    by (auto simp: switch_r2_def on_stack_def send_top_to_bottom_r2_def split: list.splits)
  have d: "n_times (length (stk m2)) send_top_to_bottom_r2 (stk m2) = Inr (stk m2)"
    if "stk m2 \<noteq> []"
    by (simp add: n_times_send_r2 [OF that])
  have e: "\<exists>q. n_times (length as1) send_top_to_bottom_p1 p1 = Inr q \<and>
              linked_r1 q as1 sp1 \<and> h_val q = h_val p1"
    if "linked_r1 p1 as1 sp1" "as1 \<noteq> []"
    using n_times_send_p1 [OF that, of "length as1"] by auto
  have f: "\<exists>q. n_times (length as2) send_top_to_bottom_p2 p2 = Inr q \<and>
              linked_r2 q as2 \<and> h_val q = h_val p2"
    if "linked_r2 p2 as2" "as2 \<noteq> []"
    using n_times_send_p2 [OF that, of "length as2"] by auto
  from a b c d e f send_top_to_bottom_p1_refines [of p1 as1 sp1]
    send_top_to_bottom_p2_refines [of p2 as2]
  show ?thesis by simp
qed

theorem rotation_returns_after_n_witness:
  "counted_r1 (stk (machine_of (stack_of_r1 [1, 2, 3]))) \<and>
   nodes (stk (machine_of (stack_of_r1 [1, 2, 3]))) \<noteq> [] \<and>
   switch_r1 CHR ''9'' False 0 (machine_of (stack_of_r1 [1, 2, 3])) =
     Continue 0 (machine_of (stack_of_r1 [2, 3, 1])) \<and>
   n_times (Suc (Suc (Suc 0))) send_top_to_bottom_r1 (stack_of_r1 [1, 2, 3]) = Inr (stack_of_r1 [1, 2, 3]) \<and>
   stk (machine_of [1, 2, 3 :: u32]) \<noteq> [] \<and>
   switch_r2 CHR ''9'' False 0 (machine_of [1, 2, 3]) = Continue 0 (machine_of [2, 3, 1]) \<and>
   n_times (Suc (Suc (Suc 0))) send_top_to_bottom_r2 [1, 2, 3] = Inr [1, 2, 3] \<and>
   linked_r1 example_p1 [2, 1, 0] [3] \<and>
   nodes (stack_of_p1 example_p1 [2, 1, 0] [3]) = [30, 20, 10] \<and>
   (\<exists>q. n_times (Suc (Suc (Suc 0))) send_top_to_bottom_p1 example_p1 = Inr q \<and>
        linked_r1 q [2, 1, 0] [3] \<and> h_val q = h_val example_p1) \<and>
   linked_r2 example_p2 [2, 1, 0] \<and>
   map (h_val example_p2) [2, 1, 0] = [30, 20, 10] \<and>
   (\<exists>q. n_times (Suc (Suc (Suc 0))) send_top_to_bottom_p2 example_p2 = Inr q \<and>
        linked_r2 q [2, 1, 0] \<and> h_val q = h_val example_p2)"
proof -
  have l1: "linked_r1 example_p1 [2, 1, 0] [3]"
    by (simp add: linked_r1_def example_p1_def)
  have l2: "linked_r2 example_p2 [2, 1, 0]"
    by (simp add: linked_r2_def example_p2_def)
  have v: "nodes (stack_of_p1 example_p1 [2, 1, 0] [3]) = [30, 20, 10]"
    "map (h_val example_p2) [2, 1, 0] = [30, 20, 10]"
    by (simp_all add: stack_of_p1_def example_p1_def example_p2_def)
  have len: "length [2 :: addr, 1, 0] = Suc (Suc (Suc 0))" by simp
  show ?thesis
    using rotation_returns_after_n
      [of "machine_of (stack_of_r1 [1, 2, 3])" False 0 "machine_of [1, 2, 3]"
          example_p1 "[2, 1, 0]" "[3]" example_p2 "[2, 1, 0]"]
      l1 l2 v
    unfolding len
    by (simp add: machine_of_def stack_of_r1_def counted_r1_def)
qed

section \<open>The states the loop reaches\<close>

text \<open>
  The hypotheses of claim C3 hold in every state the loop reaches from a loaded
  program of at least one chunk: the current chunk exists and, in revision 1, the
  counter agrees with the chain.
\<close>

lemma unat_of_nat_u32: "n < 2 ^ 32 \<Longrightarrow> unat (of_nat n :: u32) = n"
  by (simp add: unat_of_nat)

lemma chunk_count_code_of:
  assumes "length cs mod 5 = 0" and "length cs < 2 ^ 31"
  shows "unat (chunk_count (code_of cs)) = length (visited (code_of cs))"
proof -
  define k where "k = (length cs + 4) div 5"
  define n where "n = 5 * k"
  from assms(1) have "n = length cs"
    unfolding n_def k_def by (rule chunks_begun(4))
  with assms(2) have "n < 2 ^ 32" by simp
  then have "unat (of_nat n :: u32) = n" by (rule unat_of_nat_u32)
  then have "unat ((of_nat n :: u32) div 5) = n div 5"
    by (simp add: unat_div)
  moreover have "word_of_int (5 * int k) = (of_nat n :: u32)"
    by (simp add: n_def)
  ultimately have "unat ((word_of_int (5 * int k) :: u32) div 5) = k"
    by (simp add: n_def)
  then show ?thesis
    by (simp add: chunk_count_def code_of_def k_def)
qed

lemma control_step_r1_keeps:
  assumes "control_step_r1 c = Inr c'"
    and "counted_r1 (stk (mach c))"
    and "unat (chunk_count (code c)) = length (visited (code c))"
  shows "counted_r1 (stk (mach c')) \<and>
         unat (cur_chunk c') < length (visited (code c')) \<and>
         unat (chunk_count (code c')) = length (visited (code c'))"
proof -
  from assms(1) obtain m t rest where
    run: "execute_chunk_r1 (chunk_at (code c) (cur_chunk c))
            (visited (code c) ! unat (cur_chunk c)) (mach c) = Inr m"
    and top: "nodes (stk m) = t # rest"
    and less: "\<not> chunk_count (code c) \<le> t"
    and c': "c' = \<lparr>code = (code c)\<lparr>visited := (visited (code c))[unat (cur_chunk c) := True]\<rparr>,
                  cur_chunk = t, mach = m\<rparr>"
    by (auto simp: control_step_r1_def Let_def chunk_count_def
        split: if_splits sum.splits list.splits)
  from assms(2) run have "counted_r1 (stk m)"
    unfolding execute_chunk_r1_def by (rule execute_chunk_from_r1_counted)
  moreover from less have "unat t < unat (chunk_count (code c))"
    by (simp add: word_less_nat_alt not_le)
  ultimately show ?thesis
    using assms(3) c' by (simp add: chunk_count_def)
qed

lemma control_step_r2_keeps:
  assumes "control_step_r2 c = Inr c'"
    and "unat (chunk_count (code c)) = length (visited (code c))"
  shows "unat (cur_chunk c') < length (visited (code c')) \<and>
         unat (chunk_count (code c')) = length (visited (code c'))"
proof -
  from assms(1) obtain m t rest where
    top: "stk m = t # rest"
    and less: "\<not> chunk_count (code c) \<le> t"
    and c': "c' = \<lparr>code = (code c)\<lparr>visited := (visited (code c))[unat (cur_chunk c) := True]\<rparr>,
                  cur_chunk = t, mach = m\<rparr>"
    by (auto simp: control_step_r2_def Let_def chunk_count_def
        split: if_splits sum.splits list.splits)
  from less have "unat t < unat (chunk_count (code c))"
    by (simp add: word_less_nat_alt not_le)
  then show ?thesis
    using assms(2) c' by (simp add: chunk_count_def)
qed

lemma run_r1_keeps:
  assumes "run_r1 n c = Inr c'"
    and "counted_r1 (stk (mach c))"
    and "unat (cur_chunk c) < length (visited (code c))"
    and "unat (chunk_count (code c)) = length (visited (code c))"
  shows "counted_r1 (stk (mach c')) \<and>
         unat (cur_chunk c') < length (visited (code c')) \<and>
         unat (chunk_count (code c')) = length (visited (code c'))"
  using assms
proof (induction n arbitrary: c)
  case 0
  then show ?case by simp
next
  case (Suc n)
  then obtain c1 where step: "control_step_r1 c = Inr c1" and rest: "run_r1 n c1 = Inr c'"
    by (auto split: sum.splits)
  from control_step_r1_keeps [OF step Suc.prems(2) Suc.prems(4)] Suc.IH [OF rest]
  show ?case by simp
qed

lemma run_r2_keeps:
  assumes "run_r2 n c = Inr c'"
    and "unat (cur_chunk c) < length (visited (code c))"
    and "unat (chunk_count (code c)) = length (visited (code c))"
  shows "unat (cur_chunk c') < length (visited (code c')) \<and>
         unat (chunk_count (code c')) = length (visited (code c'))"
  using assms
proof (induction n arbitrary: c)
  case 0
  then show ?case by simp
next
  case (Suc n)
  then obtain c1 where step: "control_step_r2 c = Inr c1" and rest: "run_r2 n c1 = Inr c'"
    by (auto split: sum.splits)
  from control_step_r2_keeps [OF step Suc.prems(3)] Suc.IH [OF rest]
  show ?case by simp
qed

lemma reached_r1:
  assumes "read_xrf_file_r1 bytes = Inr cd" and "commands cd \<noteq> []"
    and "length (commands cd) < 2 ^ 31"
    and "execute_code_r1 n cd input R = Inr c"
  shows "counted_r1 (stk (mach c)) \<and> unat (cur_chunk c) < length (visited (code c))"
proof -
  from read_xrf_file_code_of(1) [OF assms(1)] obtain cs where
    cd: "cd = code_of cs" and m: "length cs mod 5 = 0" by auto
  from cd assms(2,3) have ne: "cs \<noteq> []" and small: "length cs < 2 ^ 31"
    by (simp_all add: code_of_def)
  from ne have "0 < (length cs + 4) div 5" by (cases cs) simp_all
  then have "unat (cur_chunk (initial_r1 cd input R)) < length (visited (code (initial_r1 cd input R)))"
    by (simp add: initial_r1_def cd code_of_def)
  moreover have "counted_r1 (stk (mach (initial_r1 cd input R)))"
    by (simp add: initial_r1_def counted_r1_def)
  moreover have "unat (chunk_count (code (initial_r1 cd input R))) =
      length (visited (code (initial_r1 cd input R)))"
    using chunk_count_code_of [OF m small] by (simp add: initial_r1_def cd)
  ultimately show ?thesis
    using run_r1_keeps [OF assms(4) [unfolded execute_code_r1_def]] by simp
qed

lemma reached_r2:
  assumes "read_xrf_file_r2 bytes = Inr cd" and "commands cd \<noteq> []"
    and "length (commands cd) < 2 ^ 31"
    and "execute_code_r2 n cd input R = Inr c"
  shows "unat (cur_chunk c) < length (visited (code c))"
proof -
  from read_xrf_file_code_of(2) [OF assms(1)] obtain cs where
    cd: "cd = code_of cs" and m: "length cs mod 5 = 0" by auto
  from cd assms(2,3) have ne: "cs \<noteq> []" and small: "length cs < 2 ^ 31"
    by (simp_all add: code_of_def)
  from ne have "0 < (length cs + 4) div 5" by (cases cs) simp_all
  then have "unat (cur_chunk (initial_r2 cd input R)) < length (visited (code (initial_r2 cd input R)))"
    by (simp add: initial_r2_def cd code_of_def)
  moreover have "unat (chunk_count (code (initial_r2 cd input R))) =
      length (visited (code (initial_r2 cd input R)))"
    using chunk_count_code_of [OF m small] by (simp add: initial_r2_def cd)
  ultimately show ?thesis
    using run_r2_keeps [OF assms(4) [unfolded execute_code_r2_def]] by simp
qed

section \<open>The flag a chunk is executed with\<close>

text \<open>
  The rest of a pass of the control loop once \<^verbatim>\<open>execute_chunk\<close> has returned with the
  machine \<open>m\<close>: lines 322-333 (revision 2: lines 670-681).
\<close>

definition end_of_pass_r1 :: "xrf_code \<Rightarrow> u32 \<Rightarrow> stack_r1 machine \<Rightarrow> stop + stack_r1 control" where
  "end_of_pass_r1 cd cur m =
     (let cd' = cd\<lparr>visited := (visited cd)[unat cur := True]\<rparr> in
      if stack_size (stk m) = 0 then Inl EmptyAtChunkEnd
      else (case nodes (stk m) of
              [] \<Rightarrow> Inl (Undefined NullDereference)
            | t # _ \<Rightarrow>
                (if chunk_count cd' \<le> t then Inl (NonexistentChunk t)
                 else Inr \<lparr>code = cd', cur_chunk = t, mach = m\<rparr>)))"

definition end_of_pass_r2 :: "xrf_code \<Rightarrow> u32 \<Rightarrow> stack_r2 machine \<Rightarrow> stop + stack_r2 control" where
  "end_of_pass_r2 cd cur m =
     (let cd' = cd\<lparr>visited := (visited cd)[unat cur := True]\<rparr> in
      (case stk m of
         [] \<Rightarrow> Inl EmptyAtChunkEnd
       | t # _ \<Rightarrow>
           (if chunk_count cd' \<le> t then Inl (NonexistentChunk t)
            else Inr \<lparr>code = cd', cur_chunk = t, mach = m\<rparr>)))"

text \<open>
  A pass is the execution of the current chunk with the flag stored for it, followed
  by the rest of the pass: the flag is read before the chunk runs and written after.
\<close>

lemma control_step_r1_pass:
  "unat (cur_chunk c) < length (visited (code c)) \<Longrightarrow>
   control_step_r1 c =
     (case execute_chunk_r1 (chunk_at (code c) (cur_chunk c))
             (visited (code c) ! unat (cur_chunk c)) (mach c) of
        Inl e \<Rightarrow> Inl e
      | Inr m \<Rightarrow> end_of_pass_r1 (code c) (cur_chunk c) m)"
  by (simp add: control_step_r1_def end_of_pass_r1_def Let_def split: sum.splits)

lemma control_step_r2_pass:
  "unat (cur_chunk c) < length (visited (code c)) \<Longrightarrow>
   control_step_r2 c =
     (case execute_chunk_r2 (chunk_at (code c) (cur_chunk c))
             (visited (code c) ! unat (cur_chunk c)) (mach c) of
        Inl e \<Rightarrow> Inl e
      | Inr m \<Rightarrow> end_of_pass_r2 (code c) (cur_chunk c) m)"
  by (simp add: control_step_r2_def end_of_pass_r2_def Let_def split: sum.splits)

text \<open>The loop at slot \<open>i\<close> reads no cell before \<open>i\<close>.\<close>

lemma execute_chunk_from_r1_later:
  "\<forall>k\<ge>i. chunk k = chunk' k \<Longrightarrow>
   execute_chunk_from_r1 chunk vis i m = execute_chunk_from_r1 chunk' vis i m"
proof (induction chunk vis i m rule: execute_chunk_from_r1.induct)
  case (1 chunk visited i m)
  show ?case
  proof (cases "i < 5")
    case False
    then show ?thesis
      by (simp add: execute_chunk_from_r1.simps [of _ _ i])
  next
    case True
    from "1.prems" have same: "chunk' i = chunk i" by simp
    show ?thesis
    proof (cases "chunk i")
      case None
      with True same show ?thesis
        by (simp add: execute_chunk_from_r1.simps [of _ _ i])
    next
      case (Some c)
      show ?thesis
      proof (cases "switch_r1 c visited i m")
        case (Continue i' m')
        from switch_r1_index [OF Continue] have "i \<le> i' + 1" by auto
        with "1.prems" have "\<forall>k\<ge>i' + 1. chunk k = chunk' k" by simp
        from "1.IH" [OF True Some Continue this] True Some same Continue
        show ?thesis
          by (simp add: execute_chunk_from_r1.simps [of _ _ i])
      qed (use True Some same in \<open>simp_all add: execute_chunk_from_r1.simps [of _ _ i]\<close>)
    qed
  qed
qed

lemma execute_chunk_from_r2_later:
  "\<forall>k\<ge>i. chunk k = chunk' k \<Longrightarrow>
   execute_chunk_from_r2 chunk vis i m = execute_chunk_from_r2 chunk' vis i m"
proof (induction chunk vis i m rule: execute_chunk_from_r2.induct)
  case (1 chunk visited i m)
  show ?case
  proof (cases "i < 5")
    case False
    then show ?thesis
      by (simp add: execute_chunk_from_r2.simps [of _ _ i])
  next
    case True
    from "1.prems" have same: "chunk' i = chunk i" by simp
    show ?thesis
    proof (cases "chunk i")
      case None
      with True same show ?thesis
        by (simp add: execute_chunk_from_r2.simps [of _ _ i])
    next
      case (Some c)
      show ?thesis
      proof (cases "switch_r2 c visited i m")
        case (Continue i' m')
        from switch_r2_index [OF Continue] have "i \<le> i' + 1" by auto
        with "1.prems" have "\<forall>k\<ge>i' + 1. chunk k = chunk' k" by simp
        from "1.IH" [OF True Some Continue this] True Some same Continue
        show ?thesis
          by (simp add: execute_chunk_from_r2.simps [of _ _ i])
      qed (use True Some same in \<open>simp_all add: execute_chunk_from_r2.simps [of _ _ i]\<close>)
    qed
  qed
qed

text \<open>
  When the opcode skips, the slot behind it is not executed: whatever symbol stands
  there, the execution is the same.
\<close>

lemma skipped_slot_r1:
  assumes "i < 5"
  shows "chunk i = Some CHR ''8'' \<Longrightarrow>
           execute_chunk_from_r1 (chunk(i + 1 := x)) False i m =
           execute_chunk_from_r1 chunk False i m"
    and "chunk i = Some CHR ''C'' \<Longrightarrow>
           execute_chunk_from_r1 (chunk(i + 1 := x)) True i m =
           execute_chunk_from_r1 chunk True i m"
proof -
  have later: "execute_chunk_from_r1 (chunk(i + 1 := x)) vis (i + 2) m =
      execute_chunk_from_r1 chunk vis (i + 2) m" for vis
    by (rule execute_chunk_from_r1_later) simp
  show "execute_chunk_from_r1 (chunk(i + 1 := x)) False i m =
      execute_chunk_from_r1 chunk False i m" if "chunk i = Some CHR ''8''"
    using skip_slot_r1(1) [of i chunk False m] skip_slot_r1(1) [of i "chunk(i + 1 := x)" False m]
      assms that later
    by simp
  show "execute_chunk_from_r1 (chunk(i + 1 := x)) True i m =
      execute_chunk_from_r1 chunk True i m" if "chunk i = Some CHR ''C''"
    using skip_slot_r1(2) [of i chunk True m] skip_slot_r1(2) [of i "chunk(i + 1 := x)" True m]
      assms that later
    by simp
qed

lemma skipped_slot_r2:
  assumes "i < 5"
  shows "chunk i = Some CHR ''8'' \<Longrightarrow>
           execute_chunk_from_r2 (chunk(i + 1 := x)) False i m =
           execute_chunk_from_r2 chunk False i m"
    and "chunk i = Some CHR ''C'' \<Longrightarrow>
           execute_chunk_from_r2 (chunk(i + 1 := x)) True i m =
           execute_chunk_from_r2 chunk True i m"
proof -
  have later: "execute_chunk_from_r2 (chunk(i + 1 := x)) vis (i + 2) m =
      execute_chunk_from_r2 chunk vis (i + 2) m" for vis
    by (rule execute_chunk_from_r2_later) simp
  show "execute_chunk_from_r2 (chunk(i + 1 := x)) False i m =
      execute_chunk_from_r2 chunk False i m" if "chunk i = Some CHR ''8''"
    using skip_slot_r2(1) [of i chunk False m] skip_slot_r2(1) [of i "chunk(i + 1 := x)" False m]
      assms that later
    by simp
  show "execute_chunk_from_r2 (chunk(i + 1 := x)) True i m =
      execute_chunk_from_r2 chunk True i m" if "chunk i = Some CHR ''C''"
    using skip_slot_r2(2) [of i chunk True m] skip_slot_r2(2) [of i "chunk(i + 1 := x)" True m]
      assms that later
    by simp
qed

text \<open>
  Once a pass has gone on after a chunk, every later pass at that chunk executes it
  with the flag true.
\<close>

lemma later_pass_r1:
  assumes "control_step_r1 c = Inr d" and "run_r1 n d = Inr e"
  shows "unat (cur_chunk c) < length (visited (code e)) \<and>
         visited (code e) ! unat (cur_chunk c) = True"
    and "cur_chunk e = cur_chunk c \<Longrightarrow>
         control_step_r1 e =
           (case execute_chunk_r1 (chunk_at (code e) (cur_chunk e)) True (mach e) of
              Inl x \<Rightarrow> Inl x
            | Inr m \<Rightarrow> end_of_pass_r1 (code e) (cur_chunk e) m)"
proof -
  from control_step_r1_code [OF assms(1)]
  have "unat (cur_chunk c) < length (visited (code d))"
    "visited (code d) ! unat (cur_chunk c)"
    by simp_all
  with run_r1_code [OF assms(2)]
  show set: "unat (cur_chunk c) < length (visited (code e)) \<and>
      visited (code e) ! unat (cur_chunk c) = True"
    by simp
  show "control_step_r1 e =
      (case execute_chunk_r1 (chunk_at (code e) (cur_chunk e)) True (mach e) of
         Inl x \<Rightarrow> Inl x
       | Inr m \<Rightarrow> end_of_pass_r1 (code e) (cur_chunk e) m)"
    if "cur_chunk e = cur_chunk c"
    using control_step_r1_pass [of e] set that by simp
qed

lemma later_pass_r2:
  assumes "control_step_r2 c = Inr d" and "run_r2 n d = Inr e"
  shows "unat (cur_chunk c) < length (visited (code e)) \<and>
         visited (code e) ! unat (cur_chunk c) = True"
    and "cur_chunk e = cur_chunk c \<Longrightarrow>
         control_step_r2 e =
           (case execute_chunk_r2 (chunk_at (code e) (cur_chunk e)) True (mach e) of
              Inl x \<Rightarrow> Inl x
            | Inr m \<Rightarrow> end_of_pass_r2 (code e) (cur_chunk e) m)"
proof -
  from control_step_r2_code [OF assms(1)]
  have "unat (cur_chunk c) < length (visited (code d))"
    "visited (code d) ! unat (cur_chunk c)"
    by simp_all
  with run_r2_code [OF assms(2)]
  show set: "unat (cur_chunk c) < length (visited (code e)) \<and>
      visited (code e) ! unat (cur_chunk c) = True"
    by simp
  show "control_step_r2 e =
      (case execute_chunk_r2 (chunk_at (code e) (cur_chunk e)) True (mach e) of
         Inl x \<Rightarrow> Inl x
       | Inr m \<Rightarrow> end_of_pass_r2 (code e) (cur_chunk e) m)"
    if "cur_chunk e = cur_chunk c"
    using control_step_r2_pass [of e] set that by simp
qed

text \<open>
  Claim C1. \<open>vis\<close> is the flag \<^verbatim>\<open>execute_chunk\<close> was called with, captured by the
  control loop before the chunk runs. An execution of a chunk starts at slot 0, returns
  at opcode \<open>A\<close> and ends when the slot index has reached 5; every slot below 5 is
  dispatched through the \<^verbatim>\<open>switch\<close>. There opcode \<open>8\<close> leaves the slot index one further when the flag is
  false and where it is when the flag is true; opcode \<open>C\<close> does the opposite. With the
  \<^verbatim>\<open>i++\<close> of the loop, the execution goes on two slots further when the opcode skips,
  and the slot in between is not executed: any symbol may stand there. It goes on at
  the very next slot when the opcode does not skip.

  A pass of the control loop executes the current chunk with the flag stored for that
  chunk. When a pass goes on after a chunk (the chunk has returned, at its end or by
  \<open>A\<close>), the flag of that chunk is true in every state reached afterwards, and every
  later pass at that chunk is the execution of the chunk with the flag true, followed
  by the rest of the pass.
\<close>

theorem skips_follow_the_visited_flag:
  "switch_r1 CHR ''8'' vis i m1 = Continue (if vis then i else i + 1) m1 \<and>
   switch_r1 CHR ''C'' vis i m1 = Continue (if vis then i + 1 else i) m1 \<and>
   switch_r2 CHR ''8'' vis i m2 = Continue (if vis then i else i + 1) m2 \<and>
   switch_r2 CHR ''C'' vis i m2 = Continue (if vis then i + 1 else i) m2 \<and>
   switch_r1 CHR ''A'' vis i m1 = Return m1 \<and>
   switch_r2 CHR ''A'' vis i m2 = Return m2 \<and>
   execute_chunk_r1 chunk vis m1 = execute_chunk_from_r1 chunk vis 0 m1 \<and>
   execute_chunk_r2 chunk vis m2 = execute_chunk_from_r2 chunk vis 0 m2 \<and>
   execute_chunk_from_r1 chunk vis (5 + l) m1 = Inr m1 \<and>
   execute_chunk_from_r2 chunk vis (5 + l) m2 = Inr m2 \<and>
   (k < 5 \<and> chunk k = Some c \<longrightarrow>
      execute_chunk_from_r1 chunk vis k m1 =
        (case switch_r1 c vis k m1 of
           Continue i' m' \<Rightarrow> execute_chunk_from_r1 chunk vis (i' + 1) m'
         | Return m' \<Rightarrow> Inr m'
         | Stop e \<Rightarrow> Inl e) \<and>
      execute_chunk_from_r2 chunk vis k m2 =
        (case switch_r2 c vis k m2 of
           Continue i' m' \<Rightarrow> execute_chunk_from_r2 chunk vis (i' + 1) m'
         | Return m' \<Rightarrow> Inr m'
         | Stop e \<Rightarrow> Inl e)) \<and>
   (i < 5 \<and> chunk i = Some CHR ''8'' \<longrightarrow>
      execute_chunk_from_r1 chunk vis i m1 =
        execute_chunk_from_r1 chunk vis (if vis then i + 1 else i + 2) m1 \<and>
      execute_chunk_from_r1 (chunk(i + 1 := x)) False i m1 =
        execute_chunk_from_r1 chunk False i m1 \<and>
      execute_chunk_from_r2 chunk vis i m2 =
        execute_chunk_from_r2 chunk vis (if vis then i + 1 else i + 2) m2 \<and>
      execute_chunk_from_r2 (chunk(i + 1 := x)) False i m2 =
        execute_chunk_from_r2 chunk False i m2) \<and>
   (j < 5 \<and> chunk j = Some CHR ''C'' \<longrightarrow>
      execute_chunk_from_r1 chunk vis j m1 =
        execute_chunk_from_r1 chunk vis (if vis then j + 2 else j + 1) m1 \<and>
      execute_chunk_from_r1 (chunk(j + 1 := x)) True j m1 =
        execute_chunk_from_r1 chunk True j m1 \<and>
      execute_chunk_from_r2 chunk vis j m2 =
        execute_chunk_from_r2 chunk vis (if vis then j + 2 else j + 1) m2 \<and>
      execute_chunk_from_r2 (chunk(j + 1 := x)) True j m2 =
        execute_chunk_from_r2 chunk True j m2) \<and>
   (unat (cur_chunk c1) < length (visited (code c1)) \<longrightarrow>
      control_step_r1 c1 =
        (case execute_chunk_r1 (chunk_at (code c1) (cur_chunk c1))
                (visited (code c1) ! unat (cur_chunk c1)) (mach c1) of
           Inl e \<Rightarrow> Inl e
         | Inr m \<Rightarrow> end_of_pass_r1 (code c1) (cur_chunk c1) m)) \<and>
   (unat (cur_chunk c2) < length (visited (code c2)) \<longrightarrow>
      control_step_r2 c2 =
        (case execute_chunk_r2 (chunk_at (code c2) (cur_chunk c2))
                (visited (code c2) ! unat (cur_chunk c2)) (mach c2) of
           Inl e \<Rightarrow> Inl e
         | Inr m \<Rightarrow> end_of_pass_r2 (code c2) (cur_chunk c2) m)) \<and>
   (control_step_r1 c1 = Inr d1 \<and> run_r1 n d1 = Inr e1 \<longrightarrow>
      unat (cur_chunk c1) < length (visited (code e1)) \<and>
      visited (code e1) ! unat (cur_chunk c1) = True \<and>
      (cur_chunk e1 = cur_chunk c1 \<longrightarrow>
         control_step_r1 e1 =
           (case execute_chunk_r1 (chunk_at (code e1) (cur_chunk e1)) True (mach e1) of
              Inl e \<Rightarrow> Inl e
            | Inr m \<Rightarrow> end_of_pass_r1 (code e1) (cur_chunk e1) m))) \<and>
   (control_step_r2 c2 = Inr d2 \<and> run_r2 n d2 = Inr e2 \<longrightarrow>
      unat (cur_chunk c2) < length (visited (code e2)) \<and>
      visited (code e2) ! unat (cur_chunk c2) = True \<and>
      (cur_chunk e2 = cur_chunk c2 \<longrightarrow>
         control_step_r2 e2 =
           (case execute_chunk_r2 (chunk_at (code e2) (cur_chunk e2)) True (mach e2) of
              Inl e \<Rightarrow> Inl e
            | Inr m \<Rightarrow> end_of_pass_r2 (code e2) (cur_chunk e2) m)))"
proof -
  have ret: "switch_r1 CHR ''A'' vis i m1 = Return m1" "switch_r2 CHR ''A'' vis i m2 = Return m2"
    by (simp_all add: switch_r1_def switch_r2_def)
  have whole: "execute_chunk_r1 chunk vis m1 = execute_chunk_from_r1 chunk vis 0 m1"
    "execute_chunk_r2 chunk vis m2 = execute_chunk_from_r2 chunk vis 0 m2"
    by (simp_all add: execute_chunk_r1_def execute_chunk_r2_def)
  have ended: "execute_chunk_from_r1 chunk vis (5 + l) m1 = Inr m1"
    "execute_chunk_from_r2 chunk vis (5 + l) m2 = Inr m2"
    by (simp_all add: execute_chunk_from_r1_done execute_chunk_from_r2_done)
  have slot: "execute_chunk_from_r1 chunk vis k m1 =
        (case switch_r1 c vis k m1 of
           Continue i' m' \<Rightarrow> execute_chunk_from_r1 chunk vis (i' + 1) m'
         | Return m' \<Rightarrow> Inr m'
         | Stop e \<Rightarrow> Inl e) \<and>
      execute_chunk_from_r2 chunk vis k m2 =
        (case switch_r2 c vis k m2 of
           Continue i' m' \<Rightarrow> execute_chunk_from_r2 chunk vis (i' + 1) m'
         | Return m' \<Rightarrow> Inr m'
         | Stop e \<Rightarrow> Inl e)"
    if "k < 5" "chunk k = Some c"
    using that
    by (simp add: execute_chunk_from_r1.simps [of _ _ k] execute_chunk_from_r2.simps [of _ _ k])
  have eight: "execute_chunk_from_r1 chunk vis i m1 =
        execute_chunk_from_r1 chunk vis (if vis then i + 1 else i + 2) m1 \<and>
      execute_chunk_from_r1 (chunk(i + 1 := x)) False i m1 =
        execute_chunk_from_r1 chunk False i m1 \<and>
      execute_chunk_from_r2 chunk vis i m2 =
        execute_chunk_from_r2 chunk vis (if vis then i + 1 else i + 2) m2 \<and>
      execute_chunk_from_r2 (chunk(i + 1 := x)) False i m2 =
        execute_chunk_from_r2 chunk False i m2"
    if "i < 5" "chunk i = Some CHR ''8''"
    using skip_slot_r1(1) [of i chunk, OF that] skip_slot_r2(1) [of i chunk, OF that]
      skipped_slot_r1(1) [of i chunk, OF that] skipped_slot_r2(1) [of i chunk, OF that]
    by simp
  have cee: "execute_chunk_from_r1 chunk vis j m1 =
        execute_chunk_from_r1 chunk vis (if vis then j + 2 else j + 1) m1 \<and>
      execute_chunk_from_r1 (chunk(j + 1 := x)) True j m1 =
        execute_chunk_from_r1 chunk True j m1 \<and>
      execute_chunk_from_r2 chunk vis j m2 =
        execute_chunk_from_r2 chunk vis (if vis then j + 2 else j + 1) m2 \<and>
      execute_chunk_from_r2 (chunk(j + 1 := x)) True j m2 =
        execute_chunk_from_r2 chunk True j m2"
    if "j < 5" "chunk j = Some CHR ''C''"
    using skip_slot_r1(2) [of j chunk, OF that] skip_slot_r2(2) [of j chunk, OF that]
      skipped_slot_r1(2) [of j chunk, OF that] skipped_slot_r2(2) [of j chunk, OF that]
    by simp
  have later1: "unat (cur_chunk c1) < length (visited (code e1)) \<and>
      visited (code e1) ! unat (cur_chunk c1) = True \<and>
      (cur_chunk e1 = cur_chunk c1 \<longrightarrow>
         control_step_r1 e1 =
           (case execute_chunk_r1 (chunk_at (code e1) (cur_chunk e1)) True (mach e1) of
              Inl e \<Rightarrow> Inl e
            | Inr m \<Rightarrow> end_of_pass_r1 (code e1) (cur_chunk e1) m))"
    if "control_step_r1 c1 = Inr d1" "run_r1 n d1 = Inr e1"
    using later_pass_r1 [OF that] by blast
  have later2: "unat (cur_chunk c2) < length (visited (code e2)) \<and>
      visited (code e2) ! unat (cur_chunk c2) = True \<and>
      (cur_chunk e2 = cur_chunk c2 \<longrightarrow>
         control_step_r2 e2 =
           (case execute_chunk_r2 (chunk_at (code e2) (cur_chunk e2)) True (mach e2) of
              Inl e \<Rightarrow> Inl e
            | Inr m \<Rightarrow> end_of_pass_r2 (code e2) (cur_chunk e2) m))"
    if "control_step_r2 c2 = Inr d2" "run_r2 n d2 = Inr e2"
    using later_pass_r2 [OF that] by blast
  show ?thesis
    by (intro conjI impI skip_r1 skip_r2 ret whole ended
          control_step_r1_pass control_step_r2_pass)
      (use slot eight cee later1 later2 in \<open>blast+\<close>)
qed

text \<open>
  The witness runs \<open>85AAA 6AAAA\<close> in revision 1 and \<open>C5AAA 6AAAA\<close> in revision 2.
  On the first visit of \<open>85AAA\<close> the \<open>8\<close> skips the \<open>5\<close> (a \<open>B\<close> in its place would not
  halt either), the stack stays \<open>[0]\<close> and the loop stays at chunk 0; on every later
  visit the \<open>5\<close> is executed, the stack is \<open>[1]\<close> and the loop goes to chunk 1, which
  sends it back. On the first visit of \<open>C5AAA\<close> the \<open>5\<close> is executed and the loop
  goes to chunk 1; on the later visits the \<open>C\<close> skips it and the loop stays at chunk 0.
\<close>

theorem skips_follow_the_visited_flag_witness:
  "(0 :: nat) < 5 \<and> (1 :: nat) < 5 \<and>
   chunk_at (code_of ''85AAA6AAAA'') 0 0 = Some CHR ''8'' \<and>
   chunk_at (code_of ''85AAA6AAAA'') 0 1 = Some CHR ''5'' \<and>
   execute_chunk_from_r1 (chunk_at (code_of ''85AAA6AAAA'') 0) False 0
       (machine_of (stack_of_r1 [0])) = Inr (machine_of (stack_of_r1 [0])) \<and>
   execute_chunk_from_r1 ((chunk_at (code_of ''85AAA6AAAA'') 0)(0 + 1 := Some CHR ''B'')) False 0
       (machine_of (stack_of_r1 [0])) = Inr (machine_of (stack_of_r1 [0])) \<and>
   execute_chunk_from_r1 (chunk_at (code_of ''85AAA6AAAA'') 0) True 0
       (machine_of (stack_of_r1 [0])) = Inr (machine_of (stack_of_r1 [1])) \<and>
   chunk_at (code_of ''C5AAA6AAAA'') 0 0 = Some CHR ''C'' \<and>
   execute_chunk_from_r2 (chunk_at (code_of ''C5AAA6AAAA'') 0) True 0 (machine_of [0]) =
     Inr (machine_of [0]) \<and>
   execute_chunk_from_r2 ((chunk_at (code_of ''C5AAA6AAAA'') 0)(0 + 1 := Some CHR ''B'')) True 0
       (machine_of [0]) = Inr (machine_of [0]) \<and>
   execute_chunk_from_r2 (chunk_at (code_of ''C5AAA6AAAA'') 0) False 0 (machine_of [0]) =
     Inr (machine_of [1]) \<and>
   control_step_r1 (initial_r1 (code_of ''85AAA6AAAA'') [] (\<lambda>k. k)) =
     Inr ((initial_r1 (code_of ''85AAA6AAAA'') [] (\<lambda>k. k))
            \<lparr>code := (code_of ''85AAA6AAAA'')\<lparr>visited := [True, False]\<rparr>\<rparr>) \<and>
   run_r1 (Suc (Suc 0))
       ((initial_r1 (code_of ''85AAA6AAAA'') [] (\<lambda>k. k))
          \<lparr>code := (code_of ''85AAA6AAAA'')\<lparr>visited := [True, False]\<rparr>\<rparr>) =
     Inr ((initial_r1 (code_of ''85AAA6AAAA'') [] (\<lambda>k. k))
            \<lparr>code := (code_of ''85AAA6AAAA'')\<lparr>visited := [True, True]\<rparr>\<rparr>) \<and>
   control_step_r1
       ((initial_r1 (code_of ''85AAA6AAAA'') [] (\<lambda>k. k))
          \<lparr>code := (code_of ''85AAA6AAAA'')\<lparr>visited := [True, True]\<rparr>\<rparr>) =
     (case execute_chunk_r1 (chunk_at (code_of ''85AAA6AAAA'') 0) True
             (mach (initial_r1 (code_of ''85AAA6AAAA'') [] (\<lambda>k. k))) of
        Inl e \<Rightarrow> Inl e
      | Inr m \<Rightarrow> end_of_pass_r1 ((code_of ''85AAA6AAAA'')\<lparr>visited := [True, True]\<rparr>) 0 m) \<and>
   control_step_r1
       ((initial_r1 (code_of ''85AAA6AAAA'') [] (\<lambda>k. k))
          \<lparr>code := (code_of ''85AAA6AAAA'')\<lparr>visited := [True, True]\<rparr>\<rparr>) =
     Inr \<lparr>code = (code_of ''85AAA6AAAA'')\<lparr>visited := [True, True]\<rparr>, cur_chunk = 1,
          mach = (mach (initial_r1 (code_of ''85AAA6AAAA'') [] (\<lambda>k. k)))
                   \<lparr>stk := stack_of_r1 [1]\<rparr>\<rparr> \<and>
   control_step_r2 (initial_r2 (code_of ''C5AAA6AAAA'') [] (\<lambda>k. k)) =
     Inr \<lparr>code = (code_of ''C5AAA6AAAA'')\<lparr>visited := [True, False]\<rparr>, cur_chunk = 1,
          mach = (mach (initial_r2 (code_of ''C5AAA6AAAA'') [] (\<lambda>k. k)))\<lparr>stk := [1]\<rparr>\<rparr> \<and>
   run_r2 (Suc 0)
       \<lparr>code = (code_of ''C5AAA6AAAA'')\<lparr>visited := [True, False]\<rparr>, cur_chunk = 1,
        mach = (mach (initial_r2 (code_of ''C5AAA6AAAA'') [] (\<lambda>k. k)))\<lparr>stk := [1]\<rparr>\<rparr> =
     Inr ((initial_r2 (code_of ''C5AAA6AAAA'') [] (\<lambda>k. k))
            \<lparr>code := (code_of ''C5AAA6AAAA'')\<lparr>visited := [True, True]\<rparr>\<rparr>) \<and>
   control_step_r2
       ((initial_r2 (code_of ''C5AAA6AAAA'') [] (\<lambda>k. k))
          \<lparr>code := (code_of ''C5AAA6AAAA'')\<lparr>visited := [True, True]\<rparr>\<rparr>) =
     (case execute_chunk_r2 (chunk_at (code_of ''C5AAA6AAAA'') 0) True
             (mach (initial_r2 (code_of ''C5AAA6AAAA'') [] (\<lambda>k. k))) of
        Inl e \<Rightarrow> Inl e
      | Inr m \<Rightarrow> end_of_pass_r2 ((code_of ''C5AAA6AAAA'')\<lparr>visited := [True, True]\<rparr>) 0 m) \<and>
   control_step_r2
       ((initial_r2 (code_of ''C5AAA6AAAA'') [] (\<lambda>k. k))
          \<lparr>code := (code_of ''C5AAA6AAAA'')\<lparr>visited := [True, True]\<rparr>\<rparr>) =
     Inr ((initial_r2 (code_of ''C5AAA6AAAA'') [] (\<lambda>k. k))
            \<lparr>code := (code_of ''C5AAA6AAAA'')\<lparr>visited := [True, True]\<rparr>\<rparr>)"
proof -
  let ?A = "code_of ''85AAA6AAAA''"
  let ?B = "code_of ''C5AAA6AAAA''"
  let ?M1 = "machine_of (stack_of_r1 [0])"
  let ?M2 = "machine_of [0 :: u32]"
  let ?c1 = "initial_r1 ?A [] (\<lambda>k. k)"
  let ?d1 = "?c1\<lparr>code := ?A\<lparr>visited := [True, False]\<rparr>\<rparr>"
  let ?e1 = "?c1\<lparr>code := ?A\<lparr>visited := [True, True]\<rparr>\<rparr>"
  let ?f1 = "\<lparr>code = ?A\<lparr>visited := [True, True]\<rparr>, cur_chunk = 1,
             mach = (mach ?c1)\<lparr>stk := stack_of_r1 [1]\<rparr>\<rparr>"
  let ?c2 = "initial_r2 ?B [] (\<lambda>k. k)"
  let ?d2 = "\<lparr>code = ?B\<lparr>visited := [True, False]\<rparr>, cur_chunk = 1,
             mach = (mach ?c2)\<lparr>stk := [1]\<rparr>\<rparr>"
  let ?e2 = "?c2\<lparr>code := ?B\<lparr>visited := [True, True]\<rparr>\<rparr>"
  have cdA: "?A = \<lparr>commands = ''85AAA6AAAA'', visited = [False, False], len = 10\<rparr>"
    and cdB: "?B = \<lparr>commands = ''C5AAA6AAAA'', visited = [False, False], len = 10\<rparr>"
    by (simp_all add: code_of_def numeral_2_eq_2)
  have two: "\<not> (2 :: u32) \<le> 1" "\<not> (2 :: u32) \<le> 0"
    by (simp_all add: word_le_nat_alt)
  note ev1 = two control_step_r1_def execute_chunk_r1_def execute_chunk_from_r1.simps
    chunk_at_def cdA switch_r1_def on_stack_def increment_r1_def decrement_r1_def
    initial_r1_def chunk_count_def machine_of_def stack_of_r1_def
  note ev2 = two control_step_r2_def execute_chunk_r2_def execute_chunk_from_r2.simps
    chunk_at_def cdB switch_r2_def on_stack_def increment_r2_def decrement_r2_def
    initial_r2_def chunk_count_def machine_of_def
  have slots: "chunk_at ?A 0 0 = Some CHR ''8''" "chunk_at ?A 0 1 = Some CHR ''5''"
    "chunk_at ?B 0 0 = Some CHR ''C''"
    by (simp_all add: chunk_at_def cdA cdB)
  have a1: "execute_chunk_from_r1 (chunk_at ?A 0) False 0 ?M1 = Inr ?M1"
    by (simp add: ev1)
  have a2: "execute_chunk_from_r1 (chunk_at ?A 0) True 0 ?M1 = Inr (machine_of (stack_of_r1 [1]))"
    by (simp add: ev1)
  have b1: "execute_chunk_from_r2 (chunk_at ?B 0) True 0 ?M2 = Inr ?M2"
    by (simp add: ev2)
  have b2: "execute_chunk_from_r2 (chunk_at ?B 0) False 0 ?M2 = Inr (machine_of [1])"
    by (simp add: ev2)
  have s1: "control_step_r1 ?c1 = Inr ?d1" by (simp add: ev1)
  have s1': "control_step_r1 ?d1 =
      Inr \<lparr>code = ?A\<lparr>visited := [True, False]\<rparr>, cur_chunk = 1,
           mach = (mach ?c1)\<lparr>stk := stack_of_r1 [1]\<rparr>\<rparr>"
    by (simp add: ev1)
  have s1'': "control_step_r1
      \<lparr>code = ?A\<lparr>visited := [True, False]\<rparr>, cur_chunk = 1,
       mach = (mach ?c1)\<lparr>stk := stack_of_r1 [1]\<rparr>\<rparr> = Inr ?e1"
    by (simp add: ev1)
  have r1: "run_r1 (Suc (Suc 0)) ?d1 = Inr ?e1"
    by (simp add: s1' s1'')
  have t1: "control_step_r1 ?e1 = Inr ?f1" by (simp add: ev1)
  have s2: "control_step_r2 ?c2 = Inr ?d2" by (simp add: ev2)
  have s2': "control_step_r2 ?d2 = Inr ?e2" by (simp add: ev2)
  have r2: "run_r2 (Suc 0) ?d2 = Inr ?e2" by (simp add: s2')
  have t2: "control_step_r2 ?e2 = Inr ?e2" by (simp add: ev2)
  have same: "cur_chunk ?e1 = cur_chunk ?c1" "cur_chunk ?e2 = cur_chunk ?c2"
    by simp_all
  have parts1: "code ?e1 = ?A\<lparr>visited := [True, True]\<rparr>" "cur_chunk ?e1 = 0"
    "mach ?e1 = mach ?c1"
    by (simp_all add: initial_r1_def)
  have parts2: "code ?e2 = ?B\<lparr>visited := [True, True]\<rparr>" "cur_chunk ?e2 = 0"
    "mach ?e2 = mach ?c2"
    by (simp_all add: initial_r2_def)
  from skips_follow_the_visited_flag
    [of False 0 ?M1 ?M2 "chunk_at ?A 0" 0 1 "CHR ''5''" "Some CHR ''B''" 0
        ?c1 ?c2 ?d1 "Suc (Suc 0)" ?e1 ?d2 ?e2]
    slots a1 s1 r1 same(1)
  have skip8: "execute_chunk_from_r1 ((chunk_at ?A 0)(0 + 1 := Some CHR ''B'')) False 0 ?M1 = Inr ?M1"
    and link1: "control_step_r1 ?e1 =
      (case execute_chunk_r1 (chunk_at (code ?e1) (cur_chunk ?e1)) True (mach ?e1) of
         Inl e \<Rightarrow> Inl e
       | Inr m \<Rightarrow> end_of_pass_r1 (code ?e1) (cur_chunk ?e1) m)"
    by simp_all
  from skips_follow_the_visited_flag
    [of True 0 ?M1 ?M2 "chunk_at ?B 0" 0 1 "CHR ''5''" "Some CHR ''B''" 0
        ?c1 ?c2 ?d1 "Suc 0" ?e1 ?d2 ?e2]
    slots b1 s2 r2 same(2)
  have skipC: "execute_chunk_from_r2 ((chunk_at ?B 0)(0 + 1 := Some CHR ''B'')) True 0 ?M2 = Inr ?M2"
    and link2: "control_step_r2 ?e2 =
      (case execute_chunk_r2 (chunk_at (code ?e2) (cur_chunk ?e2)) True (mach ?e2) of
         Inl e \<Rightarrow> Inl e
       | Inr m \<Rightarrow> end_of_pass_r2 (code ?e2) (cur_chunk ?e2) m)"
    by simp_all
  have ch1: "chunk_at (?A\<lparr>visited := [True, True]\<rparr>) 0 = chunk_at ?A 0"
    by (rule ext) (simp add: chunk_at_def)
  have ch2: "chunk_at (?B\<lparr>visited := [True, True]\<rparr>) 0 = chunk_at ?B 0"
    by (rule ext) (simp add: chunk_at_def)
  from link1 parts1 have link1': "control_step_r1 ?e1 =
      (case execute_chunk_r1 (chunk_at ?A 0) True (mach ?c1) of
         Inl e \<Rightarrow> Inl e
       | Inr m \<Rightarrow> end_of_pass_r1 (?A\<lparr>visited := [True, True]\<rparr>) 0 m)"
    by (simp add: ch1 cong: sum.case_cong)
  from link2 parts2 have link2': "control_step_r2 ?e2 =
      (case execute_chunk_r2 (chunk_at ?B 0) True (mach ?c2) of
         Inl e \<Rightarrow> Inl e
       | Inr m \<Rightarrow> end_of_pass_r2 (?B\<lparr>visited := [True, True]\<rparr>) 0 m)"
    by (simp add: ch2 cong: sum.case_cong)
  show ?thesis
    by (intro conjI slots a1 a2 b1 b2 s1 r1 t1 s2 r2 t2 skip8 skipC link1' link2') simp_all
qed

end
